theory Spec2Isabelle
  imports Main
begin

section \<open>Integer types, errors and vectors\<close>

text \<open>
  The library is generic in an integer type \<open>T\<close>; the model takes the fixed-width integer
  types of 8 to 64 bits for it. A value of \<open>T\<close> is an \<open>int\<close> inside the range of \<open>T\<close>;
  \<open>uint64_t\<close> and \<open>size_t\<close> (64 bits on the target) are \<open>nat\<close> with the wrap-around
  \<open>mod 2 ^ 64\<close> written out at every operation that can reach it; \<open>int\<close> has 32 bits.
\<close>

datatype int_type = Int8 | UInt8 | Int16 | UInt16 | Int32 | UInt32 | Int64 | UInt64

fun type_bits :: "int_type \<Rightarrow> nat" where
  "type_bits Int8 = 8"
| "type_bits UInt8 = 8"
| "type_bits Int16 = 16"
| "type_bits UInt16 = 16"
| "type_bits Int32 = 32"
| "type_bits UInt32 = 32"
| "type_bits Int64 = 64"
| "type_bits UInt64 = 64"

fun type_signed :: "int_type \<Rightarrow> bool" where
  "type_signed Int8 = True"
| "type_signed UInt8 = False"
| "type_signed Int16 = True"
| "type_signed UInt16 = False"
| "type_signed Int32 = True"
| "type_signed UInt32 = False"
| "type_signed Int64 = True"
| "type_signed UInt64 = False"

text \<open>\<open>std::numeric_limits<T>::digits\<close>, \<open>max()\<close> and \<open>min()\<close>.\<close>

definition digits :: "int_type \<Rightarrow> nat" where
  "digits T = (if type_signed T then type_bits T - 1 else type_bits T)"

definition type_max :: "int_type \<Rightarrow> int" where
  "type_max T = 2 ^ digits T - 1"

definition type_min :: "int_type \<Rightarrow> int" where
  "type_min T = (if type_signed T then - (2 ^ digits T) else 0)"

definition in_range :: "int_type \<Rightarrow> int \<Rightarrow> bool" where
  "in_range T v = (type_min T \<le> v \<and> v \<le> type_max T)"


text \<open>\<open>static_cast<uint64_t>(v)\<close> of a value of \<open>T\<close>; the conversion of an index to \<open>size_t\<close> is
  the same function.\<close>

definition to_u64 :: "int \<Rightarrow> nat" where
  "to_u64 v = nat (v mod 2 ^ 64)"

text \<open>\<open>static_cast<std::make_unsigned_t<T>>(v)\<close>.\<close>

definition make_unsigned :: "int_type \<Rightarrow> int \<Rightarrow> nat" where
  "make_unsigned T v = nat (v mod 2 ^ type_bits T)"

text \<open>
  The errors: \<open>OutOfRange\<close>, \<open>DomainError\<close> and \<open>OverflowError\<close> are the three exceptions
  thrown in \<open>prime.h\<close> (\<open>std::out_of_range\<close>, \<open>std::domain_error\<close>, \<open>std::overflow_error\<close>).
  \<open>CastError\<close> is the failure of \<open>numeric_cast\<close>, \<open>LengthError\<close> is \<open>std::length_error\<close> of
  \<open>std::vector\<close>. The last three are undefined behaviour of C++: an index outside a vector,
  a signed overflow, a division by zero.
\<close>

datatype error =
    OutOfRange | DomainError | OverflowError
  | CastError | LengthError
  | OutOfBounds | SignedOverflow | DivisionByZero

text \<open>\<open>++num\<close> on a variable of type \<open>T\<close>. At the maximum an unsigned type wraps to 0; a signed
  type narrower than \<open>int\<close> is promoted, incremented and converted back, which wraps to the
  minimum; for \<open>int\<close> and wider signed types the overflow is undefined behaviour.\<close>

definition increment :: "int_type \<Rightarrow> int \<Rightarrow> error + int" where
  "increment T v =
     (if v < type_max T then Inr (v + 1)
      else if type_signed T \<and> 32 \<le> type_bits T then Inl SignedOverflow
      else Inr (type_min T))"

text \<open>
  A \<open>std::vector\<close> is a list. A vector never holds more than \<open>max_size()\<close> elements, which is
  at most \<open>PTRDIFF_MAX = 2 ^ 63 - 1\<close> on the 64-bit target: creating or growing a vector
  beyond it throws \<open>std::length_error\<close>. Storage below that bound is taken to be available.
  An index outside the vector is undefined behaviour.
\<close>

definition vector_max_size :: nat where
  "vector_max_size = 2 ^ 63 - 1"

definition vector_create :: "nat \<Rightarrow> 'a \<Rightarrow> error + 'a list" where
  "vector_create n x = (if n \<le> vector_max_size then Inr (replicate n x) else Inl LengthError)"

definition push_back :: "'a list \<Rightarrow> 'a \<Rightarrow> error + 'a list" where
  "push_back v x = (if length v < vector_max_size then Inr (v @ [x]) else Inl LengthError)"

definition vector_get :: "'a list \<Rightarrow> nat \<Rightarrow> error + 'a" where
  "vector_get v i = (if i < length v then Inr (v ! i) else Inl OutOfBounds)"

definition vector_set :: "'a list \<Rightarrow> nat \<Rightarrow> 'a \<Rightarrow> error + 'a list" where
  "vector_set v i x = (if i < length v then Inr (v[i := x]) else Inl OutOfBounds)"

subsection \<open>The helpers of \<open>number_theory/utility.h\<close>\<close>

text \<open>Modelled from the spec: \<open>numeric_cast\<close> of \<open>number_theory/utility.h\<close>, which is not among the
  sources. It converts a value to another integer type and fails if the value is not exactly
  representable there. Both uses in \<open>prime.h\<close> convert a value of \<open>T\<close> to a 64-bit unsigned
  type (\<open>size_t\<close>, \<open>uint64_t\<close>). The spec does not name the error, so it is kept apart from the
  three exceptions of \<open>prime.h\<close>.\<close>

definition numeric_cast_u64 :: "int \<Rightarrow> error + nat" where
  "numeric_cast_u64 v = (if 0 \<le> v \<and> v < 2 ^ 64 then Inr (nat v) else Inl CastError)"

text \<open>Modelled from the spec: \<open>unsigned_abs\<close> of \<open>number_theory/utility.h\<close>, which is not among the
  sources. It returns the magnitude of a value as an unsigned value of the same width, also
  for the most negative value.\<close>

definition unsigned_abs :: "int \<Rightarrow> nat" where
  "unsigned_abs v = nat \<bar>v\<bar>"

section \<open>Sieve of Eratosthenes\<close>

record sieve =
  s_num_limit :: int
  s_is_prime :: "bool list"

text \<open>The inner loop \<open>for (uint64_t j = i * i; j <= num_limit_u64; j += i) is_prime_[j] = false\<close>.\<close>

partial_function (option) sieve_inner ::
  "nat \<Rightarrow> nat \<Rightarrow> nat \<Rightarrow> bool list \<Rightarrow> (error + bool list) option" where
  "sieve_inner num_limit_u64 i j v =
     (if j \<le> num_limit_u64 then
        (case vector_set v j False of
           Inl e \<Rightarrow> Some (Inl e)
         | Inr v' \<Rightarrow> sieve_inner num_limit_u64 i ((j + i) mod 2 ^ 64) v')
      else Some (Inr v))"

text \<open>The outer loop \<open>for (uint64_t i = 2; i * i <= num_limit_u64; ++i)\<close>.\<close>

partial_function (option) sieve_outer ::
  "nat \<Rightarrow> nat \<Rightarrow> bool list \<Rightarrow> (error + bool list) option" where
  "sieve_outer num_limit_u64 i v =
     (if (i * i) mod 2 ^ 64 \<le> num_limit_u64 then
        (case vector_get v i of
           Inl e \<Rightarrow> Some (Inl e)
         | Inr b \<Rightarrow>
             if \<not> b then sieve_outer num_limit_u64 ((i + 1) mod 2 ^ 64) v
             else
               (case sieve_inner num_limit_u64 i ((i * i) mod 2 ^ 64) v of
                  None \<Rightarrow> None
                | Some (Inl e) \<Rightarrow> Some (Inl e)
                | Some (Inr v') \<Rightarrow> sieve_outer num_limit_u64 ((i + 1) mod 2 ^ 64) v'))
      else Some (Inr v))"

text \<open>The constructor. The member initialisers run first: the flag vector gets
  \<open>numeric_cast<size_t>(num_limit) + 1\<close> entries (an addition of \<open>size_t\<close>), all true. \<open>None\<close>
  is a constructor that does not return.\<close>

definition Sieve :: "int \<Rightarrow> (error + sieve) option" where
  "Sieve num_limit =
     (case numeric_cast_u64 num_limit of
        Inl e \<Rightarrow> Some (Inl e)
      | Inr n \<Rightarrow>
     (case vector_create ((n + 1) mod 2 ^ 64) True of
        Inl e \<Rightarrow> Some (Inl e)
      | Inr v0 \<Rightarrow>
     (case vector_set v0 0 False of
        Inl e \<Rightarrow> Some (Inl e)
      | Inr v1 \<Rightarrow>
     (case vector_set v1 1 False of
        Inl e \<Rightarrow> Some (Inl e)
      | Inr v2 \<Rightarrow>
     (case numeric_cast_u64 num_limit of
        Inl e \<Rightarrow> Some (Inl e)
      | Inr num_limit_u64 \<Rightarrow>
     (case sieve_outer num_limit_u64 2 v2 of
        None \<Rightarrow> None
      | Some (Inl e) \<Rightarrow> Some (Inl e)
      | Some (Inr v) \<Rightarrow> Some (Inr \<lparr>s_num_limit = num_limit, s_is_prime = v\<rparr>)))))))"

definition Sieve_get_limit :: "sieve \<Rightarrow> int" where
  "Sieve_get_limit s = s_num_limit s"

definition Sieve_is_prime :: "sieve \<Rightarrow> int \<Rightarrow> error + bool" where
  "Sieve_is_prime s number =
     (if number < 0 then Inr False
      else if number > s_num_limit s then Inl OutOfRange
      else vector_get (s_is_prime s) (to_u64 number))"

section \<open>Sieve of Euler\<close>

record euler_sieve =
  e_num_limit :: int
  e_min_prime_factor :: "int list"
  e_primes :: "int list"

text \<open>\<open>std::bit_width\<close>: the number of bits needed to write the value, 0 for 0.\<close>

fun bit_width :: "nat \<Rightarrow> nat" where
  "bit_width n = (if n = 0 then 0 else Suc (bit_width (n div 2)))"

declare bit_width.simps [simp del]

text \<open>\<open>check_overflow\<close>, with \<open>std::numeric_limits<MultType>::digits = 64\<close>.\<close>

definition check_overflow :: "int_type \<Rightarrow> int \<Rightarrow> error + unit" where
  "check_overflow T num_limit =
     (let num_limit_width = bit_width (make_unsigned T num_limit)
      in if num_limit_width * 2 > 64 then Inl OverflowError else Inr ())"

text \<open>The loop \<open>for (const T &prime : primes_)\<close> over the primes found so far; the index of a
  vector is converted to \<open>size_t\<close>, the product is one of \<open>uint64_t\<close>.\<close>

fun euler_inner :: "int \<Rightarrow> int \<Rightarrow> int list \<Rightarrow> int list \<Rightarrow> error + int list" where
  "euler_inner num_limit num [] mpf = Inr mpf"
| "euler_inner num_limit num (prime # rest) mpf =
     (case vector_get mpf (to_u64 num) of
        Inl e \<Rightarrow> Inl e
      | Inr m \<Rightarrow>
          if prime > m then Inr mpf
          else
            let x = (to_u64 prime * to_u64 num) mod 2 ^ 64
            in if x > to_u64 num_limit then Inr mpf
               else (case vector_set mpf x prime of
                       Inl e \<Rightarrow> Inl e
                     | Inr mpf' \<Rightarrow> euler_inner num_limit num rest mpf'))"

text \<open>The body of the loop over \<open>num\<close>, on the pair of \<open>min_prime_factor_\<close> and \<open>primes_\<close>.\<close>

definition euler_step :: "int \<Rightarrow> int \<Rightarrow> int list \<times> int list \<Rightarrow> error + int list \<times> int list" where
  "euler_step num_limit num st =
     (case st of (mpf, primes) \<Rightarrow>
      (case vector_get mpf (to_u64 num) of
         Inl e \<Rightarrow> Inl e
       | Inr m \<Rightarrow>
      (case (if m = 0 then
               (case push_back primes num of
                  Inl e \<Rightarrow> Inl e
                | Inr primes' \<Rightarrow>
                    (case vector_set mpf (to_u64 num) num of
                       Inl e \<Rightarrow> Inl e
                     | Inr mpf' \<Rightarrow> Inr (mpf', primes')))
             else Inr (mpf, primes)) of
         Inl e \<Rightarrow> Inl e
       | Inr (mpf1, primes1) \<Rightarrow>
           (case euler_inner num_limit num primes1 mpf1 of
              Inl e \<Rightarrow> Inl e
            | Inr mpf2 \<Rightarrow> Inr (mpf2, primes1)))))"

text \<open>The loop \<open>for (T num = 2; num <= num_limit_; ++num)\<close>.\<close>

partial_function (option) euler_outer ::
  "int_type \<Rightarrow> int \<Rightarrow> int \<Rightarrow> int list \<times> int list \<Rightarrow> (error + int list \<times> int list) option" where
  "euler_outer T num_limit num st =
     (if num \<le> num_limit then
        (case euler_step num_limit num st of
           Inl e \<Rightarrow> Some (Inl e)
         | Inr st' \<Rightarrow>
             (case increment T num of
                Inl e \<Rightarrow> Some (Inl e)
              | Inr num' \<Rightarrow> euler_outer T num_limit num' st'))
      else Some (Inr st))"

text \<open>The constructor. The member initialisers run before the body: \<open>min_prime_factor_\<close> gets
  \<open>numeric_cast<size_t>(num_limit) + 1\<close> zeros, \<open>primes_\<close> is empty. The body calls
  \<open>check_overflow\<close> and then sieves.\<close>

definition EulerSieve :: "int_type \<Rightarrow> int \<Rightarrow> (error + euler_sieve) option" where
  "EulerSieve T num_limit =
     (case numeric_cast_u64 num_limit of
        Inl e \<Rightarrow> Some (Inl e)
      | Inr n \<Rightarrow>
     (case vector_create ((n + 1) mod 2 ^ 64) 0 of
        Inl e \<Rightarrow> Some (Inl e)
      | Inr mpf0 \<Rightarrow>
     (case check_overflow T num_limit of
        Inl e \<Rightarrow> Some (Inl e)
      | Inr _ \<Rightarrow>
     (case euler_outer T num_limit 2 (mpf0, []) of
        None \<Rightarrow> None
      | Some (Inl e) \<Rightarrow> Some (Inl e)
      | Some (Inr (mpf, primes)) \<Rightarrow>
          Some (Inr \<lparr>e_num_limit = num_limit, e_min_prime_factor = mpf, e_primes = primes\<rparr>)))))"

definition EulerSieve_get_limit :: "euler_sieve \<Rightarrow> int" where
  "EulerSieve_get_limit s = e_num_limit s"

definition EulerSieve_primes :: "euler_sieve \<Rightarrow> int list" where
  "EulerSieve_primes s = e_primes s"

definition EulerSieve_min_prime_factor :: "int_type \<Rightarrow> euler_sieve \<Rightarrow> int \<Rightarrow> error + int" where
  "EulerSieve_min_prime_factor T s number =
     (let abs_num = unsigned_abs number
      in if abs_num \<le> 1 then Inl DomainError
         else if abs_num > make_unsigned T (e_num_limit s) then Inl OutOfRange
         else vector_get (e_min_prime_factor s) abs_num)"

section \<open>Coprime pairs\<close>









section \<open>Bounded trial division\<close>

text \<open>\<open>number % i\<close> on \<open>int\<close>: C++ truncates the quotient towards zero.\<close>

definition cpp_rem :: "int \<Rightarrow> int \<Rightarrow> int" where
  "cpp_rem a b = sgn a * (\<bar>a\<bar> mod \<bar>b\<bar>)"

text \<open>The loop \<open>for (int i = 2; i * i <= number; ++i)\<close>. The product is an \<open>int\<close>: beyond
  \<open>INT_MAX\<close> it is undefined behaviour.\<close>

function is_prime_loop :: "int \<Rightarrow> int \<Rightarrow> error + bool" where
  "is_prime_loop number i =
     (if 2 ^ 31 \<le> i * i then Inl SignedOverflow
      else if i * i \<le> number then
        (if i = 0 then Inl DivisionByZero
         else if cpp_rem number i = 0 then Inr False
         else is_prime_loop number (i + 1))
      else Inr True)"
  by pat_completeness auto
termination
proof (relation "measure (\<lambda>(number, i). nat (number + 1 - i))")
  show "wf (measure (\<lambda>(number, i). nat (number + 1 - i)))" by simp
next
  fix number i :: int
  assume "i * i \<le> number"
  moreover have "i \<le> i * i"
  proof (cases "1 \<le> i")
    case True
    then have "i * 1 \<le> i * i" by (intro mult_left_mono) auto
    then show ?thesis by simp
  next
    case False
    then have "i \<le> 0" by simp
    moreover have "0 \<le> i * i" by simp
    ultimately show ?thesis by linarith
  qed
  ultimately show "((number, i + 1), (number, i)) \<in> measure (\<lambda>(number, i). nat (number + 1 - i))"
    by simp
qed

declare is_prime_loop.simps [simp del]

text \<open>The overload exists only for an integer type \<open>T\<close> with \<open>digits T \<le> 16\<close>; \<open>number\<close> is a
  value of such a type.\<close>

definition is_prime :: "int \<Rightarrow> error + bool" where
  "is_prime number = (if number < 2 then Inr False else is_prime_loop number 2)"

section \<open>Primes, and the invariants of the loops\<close>

text \<open>What the claims are stated in: a prime is a number from 2 whose only divisors are 1 and
  itself.\<close>

definition prime_number :: "nat \<Rightarrow> bool" where
  "prime_number p = (2 \<le> p \<and> (\<forall>d. d dvd p \<longrightarrow> d = 1 \<or> d = p))"

text \<open>The least divisor above 1, which is the least prime factor.\<close>

definition lpf :: "nat \<Rightarrow> nat" where
  "lpf n = (LEAST d. 2 \<le> d \<and> d dvd n)"

text \<open>The state of the sieve of Euler when the numbers below \<open>N\<close> have been processed: a number
  is marked when it is below \<open>N\<close> or its cofactor \<open>m div lpf m\<close> is a number from 2 below \<open>N\<close>.\<close>

definition marked :: "nat \<Rightarrow> nat \<Rightarrow> bool" where
  "marked N m \<longleftrightarrow> m < N \<or> (2 \<le> m div lpf m \<and> m div lpf m < N)"

definition euler_table :: "nat \<Rightarrow> nat \<Rightarrow> int list" where
  "euler_table L N = map (\<lambda>m. if 2 \<le> m \<and> marked N m then int (lpf m) else 0) [0..<L + 1]"

definition primes_below :: "nat \<Rightarrow> int list" where
  "primes_below N = map int (filter prime_number [2..<N])"

text \<open>The sieve of Euler for the limit 10, as the constructor builds it.\<close>

definition euler_sieve_10 :: euler_sieve where
  "euler_sieve_10 = \<lparr>e_num_limit = 10,
     e_min_prime_factor = [0, 0, 2, 3, 2, 5, 2, 7, 2, 3, 2], e_primes = [2, 3, 5, 7]\<rparr>"




text \<open>The invariant of the outer loop of the sieve of Eratosthenes: the flags are those of
  the candidates below \<open>i\<close>.\<close>

definition sieved :: "nat \<Rightarrow> nat \<Rightarrow> bool list \<Rightarrow> bool" where
  "sieved lim i v \<longleftrightarrow> length v = lim + 1 \<and>
     (\<forall>k\<le>lim. v ! k \<longleftrightarrow> 2 \<le> k \<and> (\<forall>d. 2 \<le> d \<and> d < i \<and> d * d \<le> k \<longrightarrow> \<not> d dvd k))"

section \<open>Facts about primes\<close>

lemma prime_number_iff_no_small_divisor:
  assumes "2 \<le> m"
  shows "prime_number m \<longleftrightarrow> (\<forall>d. 2 \<le> d \<and> d * d \<le> m \<longrightarrow> \<not> d dvd m)"
proof
  assume p: "prime_number m"
  show "\<forall>d. 2 \<le> d \<and> d * d \<le> m \<longrightarrow> \<not> d dvd m"
  proof (intro allI impI notI)
    fix d assume d: "2 \<le> d \<and> d * d \<le> m" and dv: "d dvd m"
    from p dv d have "d = m" by (auto simp: prime_number_def)
    with d have "m * 2 \<le> m * m" "m * m \<le> m" by auto
    with assms show False by simp
  qed
next
  assume h: "\<forall>d. 2 \<le> d \<and> d * d \<le> m \<longrightarrow> \<not> d dvd m"
  show "prime_number m"
    unfolding prime_number_def
  proof (intro conjI allI impI)
    show "2 \<le> m" by fact
  next
    fix d assume dv: "d dvd m"
    then obtain e where e: "m = d * e" by (auto simp: dvd_def)
    show "d = 1 \<or> d = m"
    proof (rule ccontr)
      assume c: "\<not> (d = 1 \<or> d = m)"
      with e assms have d2: "2 \<le> d" by (cases d) auto
      have "e \<noteq> 0" using e assms by (intro notI) simp
      moreover have "e \<noteq> 1" using c e by auto
      ultimately have e2: "2 \<le> e" by simp
      have ev: "e dvd m" using e by simp
      show False
      proof (cases "d \<le> e")
        case True
        then have "d * d \<le> m" using e by simp
        with h d2 dv show False by blast
      next
        case False
        then have "e * e \<le> m" using e by (simp add: mult.commute)
        with h e2 ev show False by blast
      qed
    qed
  qed
qed

lemma int_divisor_iff_nat:
  assumes "0 \<le> n"
  shows "(\<forall>i::int. 2 \<le> i \<and> i * i \<le> n \<longrightarrow> \<not> i dvd n) \<longleftrightarrow>
         (\<forall>d::nat. 2 \<le> d \<and> d * d \<le> nat n \<longrightarrow> \<not> d dvd nat n)"
proof
  assume h: "\<forall>i::int. 2 \<le> i \<and> i * i \<le> n \<longrightarrow> \<not> i dvd n"
  show "\<forall>d::nat. 2 \<le> d \<and> d * d \<le> nat n \<longrightarrow> \<not> d dvd nat n"
  proof (intro allI impI)
    fix d :: nat assume d: "2 \<le> d \<and> d * d \<le> nat n"
    then have "2 \<le> int d \<and> int d * int d \<le> n"
      using assms by (metis int_nat_eq of_nat_le_iff of_nat_mult of_nat_numeral)
    with h have "\<not> int d dvd n" by blast
    then show "\<not> d dvd nat n" using assms by (metis int_dvd_int_iff int_nat_eq)
  qed
next
  assume h: "\<forall>d::nat. 2 \<le> d \<and> d * d \<le> nat n \<longrightarrow> \<not> d dvd nat n"
  show "\<forall>i::int. 2 \<le> i \<and> i * i \<le> n \<longrightarrow> \<not> i dvd n"
  proof (intro allI impI)
    fix i :: int assume i: "2 \<le> i \<and> i * i \<le> n"
    then have "2 \<le> nat i \<and> nat i * nat i \<le> nat n"
      by (metis (no_types, opaque_lifting) nat_le_iff nat_mono nat_mult_distrib nat_numeral
          order_trans zero_le_numeral)
    with h have "\<not> nat i dvd nat n" by blast
    then show "\<not> i dvd n" using assms i by (simp add: nat_dvd_iff)
  qed
qed


lemma lpf_props:
  assumes "2 \<le> n"
  shows "2 \<le> lpf n" and "lpf n dvd n" and "\<And>d. 2 \<le> d \<Longrightarrow> d dvd n \<Longrightarrow> lpf n \<le> d"
proof -
  have ex: "2 \<le> n \<and> n dvd n" using assms by simp
  have "2 \<le> lpf n \<and> lpf n dvd n"
    unfolding lpf_def by (rule LeastI [of "\<lambda>d. 2 \<le> d \<and> d dvd n", OF ex])
  then show "2 \<le> lpf n" and "lpf n dvd n" by simp_all
  show "\<And>d. 2 \<le> d \<Longrightarrow> d dvd n \<Longrightarrow> lpf n \<le> d"
    unfolding lpf_def by (rule Least_le) simp
qed

lemma lpf_le: "2 \<le> n \<Longrightarrow> lpf n \<le> n"
  by (rule lpf_props(3)) auto

lemma lpf_prime:
  assumes "2 \<le> n"
  shows "prime_number (lpf n)"
  unfolding prime_number_def
proof (intro conjI allI impI)
  show "2 \<le> lpf n" using assms by (rule lpf_props)
next
  fix d assume d: "d dvd lpf n"
  show "d = 1 \<or> d = lpf n"
  proof (rule ccontr)
    assume c: "\<not> (d = 1 \<or> d = lpf n)"
    have pos: "0 < lpf n" using lpf_props(1) [OF assms] by simp
    then have "d \<noteq> 0" using d by (intro notI) simp
    with c have d2: "2 \<le> d" by simp
    have "d dvd n" using d lpf_props(2) [OF assms] by (rule dvd_trans)
    then have "lpf n \<le> d" using d2 lpf_props(3) [OF assms] by simp
    moreover have "d \<le> lpf n" using d pos by (rule dvd_imp_le)
    ultimately show False using c by simp
  qed
qed

lemma prime_number_lpf: "prime_number p \<longleftrightarrow> 2 \<le> p \<and> lpf p = p"
proof
  assume p: "prime_number p"
  then have p2: "2 \<le> p" by (simp add: prime_number_def)
  from lpf_props(1,2) [OF p2] p have "lpf p = p" by (auto simp: prime_number_def)
  with p2 show "2 \<le> p \<and> lpf p = p" by simp
next
  assume "2 \<le> p \<and> lpf p = p"
  then show "prime_number p" using lpf_prime [of p] by simp
qed

lemma prime_number_dvd_mult:
  assumes "prime_number p" and "p dvd a * b"
  shows "p dvd a \<or> p dvd b"
proof (cases "p dvd a")
  case True
  then show ?thesis by simp
next
  case False
  have "coprime p a"
  proof (rule coprimeI)
    fix c assume c: "c dvd p" "c dvd a"
    with assms(1) have "c = 1 \<or> c = p" by (simp add: prime_number_def)
    with c False show "is_unit c" by auto
  qed
  then have "p dvd b" using assms(2) by (simp add: coprime_dvd_mult_right_iff)
  then show ?thesis by simp
qed

lemma lpf_prime_mult:
  assumes "prime_number p" and "2 \<le> k" and "p \<le> lpf k"
  shows "lpf (p * k) = p"
proof -
  have p2: "2 \<le> p" using assms(1) by (simp add: prime_number_def)
  have m2: "2 \<le> p * k" using mult_le_mono [OF p2 assms(2)] by simp
  let ?q = "lpf (p * k)"
  have qle: "?q \<le> p" using lpf_props(3) [OF m2, of p] p2 by simp
  have "prime_number ?q" using m2 by (rule lpf_prime)
  moreover have "?q dvd p * k" using m2 by (rule lpf_props)
  ultimately have "?q dvd p \<or> ?q dvd k" by (rule prime_number_dvd_mult)
  then show ?thesis
  proof
    assume "?q dvd p"
    with assms(1) lpf_props(1) [OF m2] show ?thesis by (auto simp: prime_number_def)
  next
    assume "?q dvd k"
    then have "lpf k \<le> ?q" using lpf_props(3) [OF assms(2)] lpf_props(1) [OF m2] by simp
    with assms(3) qle show ?thesis by simp
  qed
qed

lemma cofactor_composite:
  assumes "2 \<le> m" and "\<not> prime_number m"
  shows "2 \<le> m div lpf m"
proof -
  have d: "lpf m dvd m" using assms(1) by (rule lpf_props)
  have "lpf m \<noteq> m" using assms prime_number_lpf by blast
  have "m div lpf m \<noteq> 0" using d assms(1) lpf_props(1) [OF assms(1)]
    by (metis dvd_div_eq_0_iff not_numeral_le_zero)
  moreover have "m div lpf m \<noteq> 1"
    using d \<open>lpf m \<noteq> m\<close> by (metis dvd_mult_div_cancel mult.right_neutral)
  ultimately show ?thesis by simp
qed

lemma cofactor_prime: "prime_number m \<Longrightarrow> m div lpf m = 1"
  by (simp add: prime_number_lpf)

lemma lpf_cofactor:
  assumes "2 \<le> m" and "2 \<le> m div lpf m"
  shows "lpf m \<le> lpf (m div lpf m)"
proof -
  have "lpf (m div lpf m) dvd m div lpf m" using assms(2) by (rule lpf_props)
  moreover have "m div lpf m dvd m"
    using lpf_props(2) [OF assms(1)] by (metis dvd_mult_div_cancel dvd_triv_right)
  ultimately have "lpf (m div lpf m) dvd m" by (rule dvd_trans)
  then show ?thesis using lpf_props(3) [OF assms(1)] lpf_props(1) [OF assms(2)] by simp
qed

section \<open>Correctness of the bounded trial division\<close>

lemma is_prime_loop_correct:
  assumes "2 \<le> i" "number < 2 ^ 16" "(i - 1) * (i - 1) \<le> number"
    and "\<forall>d. 2 \<le> d \<and> d < i \<longrightarrow> \<not> d dvd number"
  shows "is_prime_loop number i = Inr (\<forall>d. 2 \<le> d \<and> d * d \<le> number \<longrightarrow> \<not> d dvd number)"
  using assms
proof (induction number i rule: is_prime_loop.induct)
  case (1 number i)
  have ib: "i \<le> 256"
  proof (rule ccontr)
    assume "\<not> i \<le> 256"
    then have "256 \<le> i - 1" by simp
    then have "256 * 256 \<le> (i - 1) * (i - 1)" by (intro mult_mono) auto
    with 1 show False by simp
  qed
  have sq: "i * i \<le> 256 * 256" using ib 1(2) by (intro mult_mono) auto
  then have no: "\<not> (2 ^ 31 \<le> i * i)" by simp
  have npos: "0 \<le> number" using 1(4) by (smt (verit) zero_le_square)
  show ?case
  proof (cases "i * i \<le> number")
    case False
    have "\<forall>d. 2 \<le> d \<and> d * d \<le> number \<longrightarrow> \<not> d dvd number"
    proof (intro allI impI)
      fix d assume d: "2 \<le> d \<and> d * d \<le> number"
      have "d < i"
      proof (rule ccontr)
        assume "\<not> d < i"
        then have "i * i \<le> d * d" using 1(2) by (intro mult_mono) auto
        with d False show False by simp
      qed
      with d 1(5) show "\<not> d dvd number" by blast
    qed
    with False no show ?thesis by (subst is_prime_loop.simps) simp
  next
    case True
    have rem: "cpp_rem number i = number mod i"
      using npos 1(2) by (simp add: cpp_rem_def sgn_if)
    show ?thesis
    proof (cases "i dvd number")
      case dv: True
      then have "\<not> (\<forall>d. 2 \<le> d \<and> d * d \<le> number \<longrightarrow> \<not> d dvd number)"
        using True 1(2) by blast
      moreover have "cpp_rem number i = 0" using dv rem by (simp add: mod_eq_0_iff_dvd)
      ultimately show ?thesis using True no 1(2) by (subst is_prime_loop.simps) simp
    next
      case ndv: False
      then have nz: "cpp_rem number i \<noteq> 0" using rem by (simp add: mod_eq_0_iff_dvd)
      have "\<forall>d. 2 \<le> d \<and> d < i + 1 \<longrightarrow> \<not> d dvd number"
        using 1(5) ndv by (metis zless_add1_eq)
      then have "is_prime_loop number (i + 1) =
          Inr (\<forall>d. 2 \<le> d \<and> d * d \<le> number \<longrightarrow> \<not> d dvd number)"
        using 1(1)[OF no True _ nz] 1(2,3) True by simp
      then show ?thesis using True no 1(2) nz by (subst is_prime_loop.simps) simp
    qed
  qed
qed


lemma in_range_small_type:
  assumes "digits T \<le> 16" and "in_range T n"
  shows "n < 2 ^ 16"
proof -
  have "(2::int) ^ digits T \<le> 2 ^ 16"
    using assms(1) by (intro power_increasing) auto
  then show ?thesis using assms(2) by (simp add: in_range_def type_max_def)
qed

lemma is_prime_value:
  assumes "n < 2 ^ 16"
  shows "is_prime n = Inr (2 \<le> n \<and> (\<forall>i. 2 \<le> i \<and> i * i \<le> n \<longrightarrow> \<not> i dvd n))"
proof (cases "n < 2")
  case True
  then show ?thesis by (simp add: is_prime_def)
next
  case False
  then have "is_prime_loop n 2 = Inr (\<forall>d. 2 \<le> d \<and> d * d \<le> n \<longrightarrow> \<not> d dvd n)"
    using assms by (intro is_prime_loop_correct) auto
  with False show ?thesis by (simp add: is_prime_def)
qed

lemma is_prime_prime_number:
  assumes "n < 2 ^ 16"
  shows "is_prime n = Inr (prime_number (nat n))"
proof (cases "n < 2")
  case True
  then have "nat n < 2" by simp
  then have "\<not> prime_number (nat n)" by (simp add: prime_number_def)
  with True show ?thesis by (simp add: is_prime_def)
next
  case False
  then have "prime_number (nat n) \<longleftrightarrow> (\<forall>i. 2 \<le> i \<and> i * i \<le> n \<longrightarrow> \<not> i dvd n)"
    using prime_number_iff_no_small_divisor [of "nat n"] int_divisor_iff_nat [of n] by simp
  with False show ?thesis using is_prime_value [OF assms] by simp
qed

text \<open>
  Claim C7. For an integer type of at most 16 digits and every value \<open>n\<close> of it, the bounded
  trial division returns, without error, false when \<open>n < 2\<close>; for \<open>n \<ge> 2\<close> it returns false
  if and only if some \<open>i\<close> with \<open>2 \<le> i\<close> and \<open>i * i \<le> n\<close> divides \<open>n\<close>, and true otherwise, that
  is, it returns true if and only if \<open>n\<close> is prime. In particular \<open>is_prime(1)\<close> and
  \<open>is_prime(15)\<close> are false, \<open>is_prime(2)\<close> and \<open>is_prime(9973)\<close> are true.
\<close>

theorem is_prime_trial_division:
  assumes "digits T \<le> 16" and "in_range T n"
  shows "is_prime n = Inr (2 \<le> n \<and> (\<forall>i. 2 \<le> i \<and> i * i \<le> n \<longrightarrow> \<not> i dvd n))
       \<and> is_prime n = Inr (prime_number (nat n))
       \<and> is_prime 1 = Inr False \<and> is_prime 2 = Inr True
       \<and> is_prime 15 = Inr False \<and> is_prime 9973 = Inr True"
proof -
  have n: "n < 2 ^ 16" using assms by (rule in_range_small_type)
  have "is_prime 1 = Inr False" by (simp add: is_prime_def)
  moreover have "is_prime 2 = Inr True"
    by (simp add: is_prime_def is_prime_loop.simps cpp_rem_def)
  moreover have "is_prime 15 = Inr False"
    by (simp add: is_prime_def is_prime_loop.simps cpp_rem_def)
  moreover have "is_prime 9973 = Inr True"
    by (simp add: is_prime_def is_prime_loop.simps cpp_rem_def)
  ultimately show ?thesis
    using is_prime_value [OF n] is_prime_prime_number [OF n] by simp
qed

theorem is_prime_trial_division_witness:
  "digits UInt16 \<le> 16 \<and> in_range UInt16 91 \<and> is_prime 91 = Inr False
   \<and> \<not> prime_number (nat 91)"
proof -
  have d: "digits UInt16 \<le> 16" by (simp add: digits_def)
  have r: "in_range UInt16 91" by (simp add: in_range_def type_min_def type_max_def digits_def)
  have e: "is_prime 91 = Inr False"
    by (simp add: is_prime_def is_prime_loop.simps cpp_rem_def)
  from is_prime_trial_division [OF d r] e have "\<not> prime_number (nat 91)" by simp
  with d r e show ?thesis by simp
qed

section \<open>The sieve of Eratosthenes\<close>

text \<open>
  Claim C8 says that the constructor of \<open>Sieve\<close> keeps every access to the flag vector in
  bounds for every limit \<open>L \<ge> 0\<close>, \<open>L = 0\<close> included. For \<open>L = 0\<close> the vector has one entry, and
  the write \<open>is_prime_[1] = false\<close> is outside it.
\<close>

theorem Sieve_zero_out_of_bounds: "Sieve 0 = Some (Inl OutOfBounds)"
  by (simp add: Sieve_def numeric_cast_u64_def vector_create_def vector_set_def
      vector_max_size_def)

subsection \<open>The loops\<close>

lemma sieve_inner_correct:
  assumes "0 < i" and "lim + i < 2 ^ 64" and "length v = lim + 1"
  shows "\<exists>v'. sieve_inner lim i j v = Some (Inr v') \<and> length v' = length v \<and>
           (\<forall>k<length v. v' ! k \<longleftrightarrow> v ! k \<and> \<not> (j \<le> k \<and> i dvd (k - j)))"
  using assms
proof (induction "lim + 1 - j" arbitrary: j v rule: less_induct)
  case less
  show ?case
  proof (cases "j \<le> lim")
    case False
    then have "sieve_inner lim i j v = Some (Inr v)"
      by (subst sieve_inner.simps) simp
    moreover have "\<forall>k<length v. \<not> (j \<le> k \<and> i dvd (k - j))"
      using False less.prems(3) by auto
    ultimately show ?thesis by simp
  next
    case True
    let ?v = "v[j := False]"
    have wrap: "(j + i) mod 2 ^ 64 = j + i"
      using True less.prems(2) by simp
    have step: "sieve_inner lim i j v = sieve_inner lim i (j + i) ?v"
      using True less.prems(3) wrap
      by (subst sieve_inner.simps) (simp add: vector_set_def)
    have "lim + 1 - (j + i) < lim + 1 - j"
      using True less.prems(1) by simp
    have lv: "length ?v = lim + 1" using less.prems(3) by simp
    from less.hyps [OF \<open>lim + 1 - (j + i) < lim + 1 - j\<close> less.prems(1,2) lv]
    obtain v' where v': "sieve_inner lim i (j + i) ?v = Some (Inr v')"
      "length v' = length ?v"
      "\<forall>k<length ?v. v' ! k \<longleftrightarrow> ?v ! k \<and> \<not> (j + i \<le> k \<and> i dvd (k - (j + i)))"
      by blast
    have "\<forall>k<length v. v' ! k \<longleftrightarrow> v ! k \<and> \<not> (j \<le> k \<and> i dvd (k - j))"
    proof (intro allI impI)
      fix k assume k: "k < length v"
      have a: "v' ! k \<longleftrightarrow> ?v ! k \<and> \<not> (j + i \<le> k \<and> i dvd (k - (j + i)))"
        using v'(3) k by simp
      show "v' ! k \<longleftrightarrow> v ! k \<and> \<not> (j \<le> k \<and> i dvd (k - j))"
      proof (cases "k = j")
        case True
        then show ?thesis using a k by simp
      next
        case kj: False
        have "(j \<le> k \<and> i dvd (k - j)) \<longleftrightarrow> (j + i \<le> k \<and> i dvd (k - (j + i)))"
        proof
          assume h: "j \<le> k \<and> i dvd (k - j)"
          then obtain c where c: "k - j = i * c" by (auto simp: dvd_def)
          with kj h have "c \<noteq> 0" by (intro notI) simp
          then have "i \<le> i * c" by simp
          with c h have le: "j + i \<le> k" by linarith
          have "k - (j + i) = i * (c - 1)"
            using c \<open>c \<noteq> 0\<close> by (simp add: algebra_simps diff_mult_distrib2)
          then show "j + i \<le> k \<and> i dvd (k - (j + i))" using le by simp
        next
          assume h: "j + i \<le> k \<and> i dvd (k - (j + i))"
          then have "k - j = (k - (j + i)) + i" by simp
          then show "j \<le> k \<and> i dvd (k - j)" using h by (metis add_leE dvd_add_triv_right_iff)
        qed
        then show ?thesis using a kj by simp
      qed
    qed
    with v' step show ?thesis by simp
  qed
qed

lemma square_bound_u64:
  assumes "(i - 1) * (i - 1) \<le> lim" and "lim < 2 ^ 63"
  shows "i < (2::nat) ^ 32"
proof (rule ccontr)
  assume "\<not> i < 2 ^ 32"
  then have "(2::nat) ^ 32 - 1 \<le> i - 1" by simp
  from mult_le_mono [OF this this]
  have "((2::nat) ^ 32 - 1) * (2 ^ 32 - 1) \<le> (i - 1) * (i - 1)" .
  then have "((2::nat) ^ 32 - 1) * (2 ^ 32 - 1) < 2 ^ 63"
    using assms by linarith
  then show False by simp
qed

lemma sieve_outer_correct:
  assumes "lim < 2 ^ 63" and "2 \<le> i" and "(i - 1) * (i - 1) \<le> lim" and "sieved lim i v"
  shows "\<exists>v'. sieve_outer lim i v = Some (Inr v') \<and> length v' = lim + 1 \<and>
           (\<forall>k\<le>lim. v' ! k \<longleftrightarrow> 2 \<le> k \<and> (\<forall>d. 2 \<le> d \<and> d * d \<le> k \<longrightarrow> \<not> d dvd k))"
  using assms
proof (induction "lim + 1 - i" arbitrary: i v rule: less_induct)
  case less
  have i32: "i < 2 ^ 32" using less.prems(3,1) by (rule square_bound_u64)
  then have "i * i \<le> (2 ^ 32 - 1) * (2 ^ 32 - 1)" by (intro mult_le_mono) auto
  then have sq: "(i * i) mod 2 ^ 64 = i * i" by simp
  have inc: "(i + 1) mod 2 ^ 64 = i + 1" using i32 by simp
  have len: "length v = lim + 1" using less.prems(4) by (simp add: sieved_def)
  show ?case
  proof (cases "i * i \<le> lim")
    case False
    have "\<forall>k\<le>lim. v ! k \<longleftrightarrow> 2 \<le> k \<and> (\<forall>d. 2 \<le> d \<and> d * d \<le> k \<longrightarrow> \<not> d dvd k)"
    proof (intro allI impI)
      fix k assume k: "k \<le> lim"
      have "\<And>d. d * d \<le> k \<Longrightarrow> d < i"
      proof (rule ccontr)
        fix d assume "d * d \<le> k" "\<not> d < i"
        then have "i * i \<le> d * d" by (intro mult_le_mono) auto
        with \<open>d * d \<le> k\<close> k False show False by simp
      qed
      then show "v ! k \<longleftrightarrow> 2 \<le> k \<and> (\<forall>d. 2 \<le> d \<and> d * d \<le> k \<longrightarrow> \<not> d dvd k)"
        using less.prems(4) k unfolding sieved_def by blast
    qed
    moreover have "sieve_outer lim i v = Some (Inr v)"
      using False sq by (subst sieve_outer.simps) simp
    ultimately show ?thesis using len by simp
  next
    case True
    have "i \<le> i * i" by (rule le_square)
    with True have ilim: "i \<le> lim" by linarith
    then have get: "vector_get v i = Inr (v ! i)" using len by (simp add: vector_get_def)
    have dec: "lim + 1 - (i + 1) < lim + 1 - i" using ilim by simp
    have pre: "(i + 1 - 1) * (i + 1 - 1) \<le> lim" using True by simp
    have i2: "2 \<le> i + 1" using less.prems(2) by simp
    show ?thesis
    proof (cases "v ! i")
      case False
      have "\<exists>d. 2 \<le> d \<and> d < i \<and> d * d \<le> i \<and> d dvd i"
        using less.prems(4,2) ilim False unfolding sieved_def by blast
      then obtain d0 where d0: "2 \<le> d0" "d0 < i" "d0 * d0 \<le> i" "d0 dvd i" by blast
      have "sieved lim (i + 1) v"
        unfolding sieved_def
      proof (intro conjI allI impI)
        show "length v = lim + 1" by (rule len)
      next
        fix k assume k: "k \<le> lim"
        have "(\<forall>d. 2 \<le> d \<and> d < i + 1 \<and> d * d \<le> k \<longrightarrow> \<not> d dvd k) \<longleftrightarrow>
              (\<forall>d. 2 \<le> d \<and> d < i \<and> d * d \<le> k \<longrightarrow> \<not> d dvd k)"
        proof
          assume "\<forall>d. 2 \<le> d \<and> d < i + 1 \<and> d * d \<le> k \<longrightarrow> \<not> d dvd k"
          then show "\<forall>d. 2 \<le> d \<and> d < i \<and> d * d \<le> k \<longrightarrow> \<not> d dvd k" by auto
        next
          assume h: "\<forall>d. 2 \<le> d \<and> d < i \<and> d * d \<le> k \<longrightarrow> \<not> d dvd k"
          show "\<forall>d. 2 \<le> d \<and> d < i + 1 \<and> d * d \<le> k \<longrightarrow> \<not> d dvd k"
          proof (intro allI impI notI)
            fix d assume d: "2 \<le> d \<and> d < i + 1 \<and> d * d \<le> k" and dv: "d dvd k"
            show False
            proof (cases "d = i")
              case True
              have "i \<le> i * i" by (rule le_square)
              moreover have "i * i \<le> k" using d True by simp
              ultimately have "d0 * d0 \<le> k" using d0(3) by linarith
              moreover have "d0 dvd k" using d0(4) dv True by (metis dvd_trans)
              ultimately show False using h d0(1,2) by blast
            next
              case False
              with d have "d < i" by simp
              with h d dv show False by blast
            qed
          qed
        qed
        then show "v ! k \<longleftrightarrow> 2 \<le> k \<and> (\<forall>d. 2 \<le> d \<and> d < i + 1 \<and> d * d \<le> k \<longrightarrow> \<not> d dvd k)"
          using less.prems(4) k unfolding sieved_def by simp
      qed
      from less.hyps [OF dec less.prems(1) i2 pre this]
      obtain v' where "sieve_outer lim (i + 1) v = Some (Inr v')" "length v' = lim + 1"
        "\<forall>k\<le>lim. v' ! k \<longleftrightarrow> 2 \<le> k \<and> (\<forall>d. 2 \<le> d \<and> d * d \<le> k \<longrightarrow> \<not> d dvd k)"
        by blast
      moreover have "sieve_outer lim i v = sieve_outer lim (i + 1) v"
        using True sq inc get False by (subst sieve_outer.simps) simp
      ultimately show ?thesis by simp
    next
      case vi: True
      have "lim + i < 2 ^ 64" using less.prems(1) i32 by simp
      from sieve_inner_correct [OF _ this len, of "i * i"] less.prems(2)
      obtain w where w: "sieve_inner lim i (i * i) v = Some (Inr w)" "length w = length v"
        "\<forall>k<length v. w ! k \<longleftrightarrow> v ! k \<and> \<not> (i * i \<le> k \<and> i dvd (k - i * i))"
        by auto
      have "sieved lim (i + 1) w"
        unfolding sieved_def
      proof (intro conjI allI impI)
        show "length w = lim + 1" using w(2) len by simp
      next
        fix k assume k: "k \<le> lim"
        have wk: "w ! k \<longleftrightarrow> v ! k \<and> \<not> (i * i \<le> k \<and> i dvd k)"
        proof (cases "i * i \<le> k")
          case True
          then have "i dvd (k - i * i) \<longleftrightarrow> i dvd k"
            by (metis dvd_diffD dvd_diff_nat dvd_triv_left)
          then show ?thesis using w(3) k len by simp
        next
          case False
          then show ?thesis using w(3) k len by simp
        qed
        have "(\<forall>d. 2 \<le> d \<and> d < i + 1 \<and> d * d \<le> k \<longrightarrow> \<not> d dvd k) \<longleftrightarrow>
              (\<forall>d. 2 \<le> d \<and> d < i \<and> d * d \<le> k \<longrightarrow> \<not> d dvd k) \<and> \<not> (i * i \<le> k \<and> i dvd k)"
          using less.prems(2) by (auto simp: less_Suc_eq)
        then show "w ! k \<longleftrightarrow> 2 \<le> k \<and> (\<forall>d. 2 \<le> d \<and> d < i + 1 \<and> d * d \<le> k \<longrightarrow> \<not> d dvd k)"
          using wk less.prems(4) k unfolding sieved_def by auto
      qed
      from less.hyps [OF dec less.prems(1) i2 pre this]
      obtain v' where "sieve_outer lim (i + 1) w = Some (Inr v')" "length v' = lim + 1"
        "\<forall>k\<le>lim. v' ! k \<longleftrightarrow> 2 \<le> k \<and> (\<forall>d. 2 \<le> d \<and> d * d \<le> k \<longrightarrow> \<not> d dvd k)"
        by blast
      moreover have "sieve_outer lim i v = sieve_outer lim (i + 1) w"
        using True sq inc get vi w(1) by (subst sieve_outer.simps) simp
      ultimately show ?thesis by simp
    qed
  qed
qed

lemma Sieve_success_range:
  assumes "Sieve L = Some (Inr s)"
  shows "1 \<le> L \<and> L \<le> 2 ^ 63 - 2"
proof -
  have c: "0 \<le> L \<and> L < 2 ^ 64"
    using assms by (auto simp: Sieve_def numeric_cast_u64_def split: if_splits)
  then have n: "numeric_cast_u64 L = Inr (nat L)" by (simp add: numeric_cast_u64_def)
  have "(nat L + 1) mod 2 ^ 64 \<le> vector_max_size"
    using assms n by (auto simp: Sieve_def vector_create_def split: if_splits)
  moreover have "1 < (nat L + 1) mod 2 ^ 64"
    using assms n
    by (auto simp: Sieve_def vector_create_def vector_set_def split: if_splits sum.splits)
  moreover have "(nat L + 1) mod 2 ^ 64 = (if nat L + 1 = 2 ^ 64 then 0 else nat L + 1)"
    using c by auto
  ultimately have "1 < nat L + 1 \<and> nat L + 1 \<le> 2 ^ 63 - 1"
    by (auto simp: vector_max_size_def split: if_splits)
  then show ?thesis using c by auto
qed

lemma Sieve_constructs:
  assumes "1 \<le> L" and "L \<le> 2 ^ 63 - 2"
  shows "\<exists>s. Sieve L = Some (Inr s) \<and> s_num_limit s = L \<and>
           length (s_is_prime s) = nat L + 1 \<and>
           (\<forall>k\<le>nat L. s_is_prime s ! k \<longleftrightarrow> prime_number k)"
proof -
  let ?n = "nat L"
  let ?v = "(replicate (?n + 1) True)[0 := False, 1 := False]"
  have n: "numeric_cast_u64 L = Inr ?n" using assms by (simp add: numeric_cast_u64_def)
  have nb: "1 \<le> ?n" "?n < 2 ^ 63 - 1" using assms by auto
  then have m: "(?n + 1) mod 2 ^ 64 = ?n + 1" by simp
  have cr: "vector_create (?n + 1) True = Inr (replicate (?n + 1) True)"
    using nb by (simp add: vector_create_def vector_max_size_def)
  have s0: "vector_set (replicate (?n + 1) True) 0 False = Inr ((replicate (?n + 1) True)[0 := False])"
    by (simp add: vector_set_def)
  have s1: "vector_set ((replicate (?n + 1) True)[0 := False]) 1 False = Inr ?v"
    using nb by (simp add: vector_set_def)
  have "sieved ?n 2 ?v"
    unfolding sieved_def
  proof (intro conjI allI impI)
    show "length ?v = ?n + 1" by simp
  next
    fix k assume "k \<le> ?n"
    then have "?v ! k \<longleftrightarrow> 2 \<le> k"
      by (cases "k = 0"; cases "k = 1") (auto simp: nth_list_update)
    then show "?v ! k \<longleftrightarrow> 2 \<le> k \<and> (\<forall>d. 2 \<le> d \<and> d < 2 \<and> d * d \<le> k \<longrightarrow> \<not> d dvd k)"
      by auto
  qed
  from sieve_outer_correct [OF _ _ _ this] nb
  obtain v' where v': "sieve_outer ?n 2 ?v = Some (Inr v')" "length v' = ?n + 1"
    "\<forall>k\<le>?n. v' ! k \<longleftrightarrow> 2 \<le> k \<and> (\<forall>d. 2 \<le> d \<and> d * d \<le> k \<longrightarrow> \<not> d dvd k)"
    by auto
  have "Sieve L = Some (Inr \<lparr>s_num_limit = L, s_is_prime = v'\<rparr>)"
    unfolding Sieve_def by (simp only: n m cr s0 s1 v'(1) sum.case option.case)
  moreover have "\<forall>k\<le>?n. v' ! k \<longleftrightarrow> prime_number k"
  proof (intro allI impI)
    fix k assume k: "k \<le> ?n"
    show "v' ! k \<longleftrightarrow> prime_number k"
    proof (cases "2 \<le> k")
      case True
      then show ?thesis using v'(3) k prime_number_iff_no_small_divisor [of k] by simp
    next
      case False
      then show ?thesis using v'(3) k by (simp add: prime_number_def)
    qed
  qed
  ultimately show ?thesis using v'(2) by simp
qed

lemma Sieve_correct:
  assumes "Sieve L = Some (Inr s)"
  shows "1 \<le> L \<and> L \<le> 2 ^ 63 - 2 \<and> s_num_limit s = L \<and> length (s_is_prime s) = nat L + 1 \<and>
         (\<forall>k\<le>nat L. s_is_prime s ! k \<longleftrightarrow> prime_number k)"
proof -
  have r: "1 \<le> L \<and> L \<le> 2 ^ 63 - 2" using assms by (rule Sieve_success_range)
  then obtain s' where "Sieve L = Some (Inr s')" "s_num_limit s' = L"
    "length (s_is_prime s') = nat L + 1" "\<forall>k\<le>nat L. s_is_prime s' ! k \<longleftrightarrow> prime_number k"
    using Sieve_constructs [of L] by blast
  with assms r show ?thesis by simp
qed

lemma Sieve_is_prime_value:
  assumes "Sieve L = Some (Inr s)"
  shows "Sieve_is_prime s n =
     (if n < 0 then Inr False else if L < n then Inl OutOfRange
      else Inr (prime_number (nat n)))"
proof -
  note c = Sieve_correct [OF assms]
  show ?thesis
  proof (cases "0 \<le> n \<and> n \<le> L")
    case True
    then have "n mod 2 ^ 64 = n" using c by (intro mod_pos_pos_trivial) auto
    then have "to_u64 n = nat n" by (simp add: to_u64_def)
    moreover have "nat n \<le> nat L" using True by linarith
    ultimately show ?thesis using True c by (simp add: Sieve_is_prime_def vector_get_def)
  next
    case False
    then show ?thesis using c by (auto simp: Sieve_is_prime_def)
  qed
qed


subsection \<open>A sieve up to 10\<close>

lemma sieve_inner_10_2:
  "sieve_inner 10 2 4 [False, False, True, True, True, True, True, True, True, True, True]
     = Some (Inr [False, False, True, True, False, True, False, True, False, True, False])"
  by (subst sieve_inner.simps, simp add: vector_set_def)+

lemma sieve_inner_10_3:
  "sieve_inner 10 3 9 [False, False, True, True, False, True, False, True, False, True, False]
     = Some (Inr [False, False, True, True, False, True, False, True, False, False, False])"
  by (subst sieve_inner.simps, simp add: vector_set_def)+

lemma sieve_outer_10:
  "sieve_outer 10 2 [False, False, True, True, True, True, True, True, True, True, True]
     = Some (Inr [False, False, True, True, False, True, False, True, False, False, False])"
  apply (subst sieve_outer.simps, simp add: vector_get_def sieve_inner_10_2)
  apply (subst sieve_outer.simps, simp add: vector_get_def sieve_inner_10_3)
  apply (subst sieve_outer.simps, simp add: vector_get_def)
  done

lemma Sieve_10:
  "Sieve 10 = Some (Inr \<lparr>s_num_limit = 10, s_is_prime =
     [False, False, True, True, False, True, False, True, False, False, False]\<rparr>)"
proof -
  have "replicate 11 True = [True, True, True, True, True, True, True, True, True, True, True]"
    by (simp add: numeral_eq_Suc)
  then show ?thesis
  by (simp add: Sieve_def numeric_cast_u64_def vector_create_def vector_set_def
      vector_max_size_def sieve_outer_10)
qed

subsection \<open>The query\<close>

text \<open>
  Claim C3. For every limit \<open>L\<close> with which \<open>Sieve(L)\<close> was constructed and every \<open>n\<close>,
  \<open>is_prime(n)\<close> returns false if \<open>n < 0\<close>, raises \<open>OutOfRange\<close> if \<open>n > L\<close>, and otherwise
  returns whether \<open>2 \<le> n\<close> and \<open>n\<close> has no divisor \<open>d \<ge> 2\<close> with \<open>d * d \<le> n\<close>, that is, whether
  \<open>n\<close> is prime (false for 0 and 1). The query is a function of the sieve and the number:
  it returns no new sieve, the sieve is unchanged.
\<close>

theorem Sieve_is_prime_correct:
  assumes "Sieve L = Some (Inr s)"
  shows "Sieve_is_prime s n =
           (if n < 0 then Inr False else if L < n then Inl OutOfRange
            else Inr (2 \<le> n \<and> (\<forall>d. 2 \<le> d \<and> d * d \<le> n \<longrightarrow> \<not> d dvd n)))
       \<and> Sieve_is_prime s n =
           (if n < 0 then Inr False else if L < n then Inl OutOfRange
            else Inr (prime_number (nat n)))
       \<and> Sieve_get_limit s = L"
proof -
  have "prime_number (nat n) \<longleftrightarrow> 2 \<le> n \<and> (\<forall>d. 2 \<le> d \<and> d * d \<le> n \<longrightarrow> \<not> d dvd n)"
    if "0 \<le> n"
  proof (cases "2 \<le> n")
    case True
    then show ?thesis
      using prime_number_iff_no_small_divisor [of "nat n"] int_divisor_iff_nat [of n] by simp
  next
    case False
    then have "nat n < 2" by simp
    then show ?thesis using False by (simp add: prime_number_def)
  qed
  then show ?thesis
    using Sieve_is_prime_value [OF assms, of n] Sieve_correct [OF assms]
    by (simp add: Sieve_get_limit_def)
qed

theorem Sieve_is_prime_correct_witness:
  "Sieve 10 = Some (Inr \<lparr>s_num_limit = 10, s_is_prime =
     [False, False, True, True, False, True, False, True, False, False, False]\<rparr>)
   \<and> Sieve_is_prime \<lparr>s_num_limit = 10, s_is_prime =
     [False, False, True, True, False, True, False, True, False, False, False]\<rparr> 7
       = Inr (prime_number (nat 7))
   \<and> Sieve_is_prime \<lparr>s_num_limit = 10, s_is_prime =
     [False, False, True, True, False, True, False, True, False, False, False]\<rparr> 7
       = Inr True
   \<and> Sieve_is_prime \<lparr>s_num_limit = 10, s_is_prime =
     [False, False, True, True, False, True, False, True, False, False, False]\<rparr> 11
       = Inl OutOfRange"
  using Sieve_is_prime_correct [OF Sieve_10, of 7] Sieve_is_prime_correct [OF Sieve_10, of 11]
    Sieve_10
  by (simp add: Sieve_is_prime_def vector_get_def to_u64_def)

section \<open>The sieve of Euler\<close>

subsection \<open>The loop over the primes\<close>

lemma to_u64_int: "n < 2 ^ 64 \<Longrightarrow> to_u64 (int n) = n"
proof -
  assume "n < 2 ^ 64"
  then have "int n < 2 ^ 64" by (metis of_nat_less_iff of_nat_numeral of_nat_power)
  then have "int n mod 2 ^ 64 = int n" by simp
  then show ?thesis by (simp add: to_u64_def)
qed

lemma mult_below_u64:
  assumes "p \<le> N" and "N < 2 ^ 32"
  shows "p * N < (2::nat) ^ 64"
proof -
  have "p * N \<le> (2 ^ 32 - 1) * (2 ^ 32 - 1)"
    using assms by (intro mult_le_mono) auto
  then show ?thesis by simp
qed

lemma euler_inner_correct:
  assumes "2 \<le> N" and "N \<le> L" and "L < 2 ^ 32" and "length mpf = L + 1"
    and "mpf ! N = int c" and "sorted ps" and "\<forall>p\<in>set ps. 2 \<le> p \<and> p \<le> N"
  shows "\<exists>mpf'. euler_inner (int L) (int N) (map int ps) mpf = Inr mpf' \<and> length mpf' = L + 1 \<and>
     (\<forall>m\<le>L. mpf' ! m =
        (if N dvd m \<and> m div N \<in> set ps \<and> m div N \<le> c then int (m div N) else mpf ! m))"
  using assms(4-7)
proof (induction ps arbitrary: mpf)
  case Nil
  then show ?case by simp
next
  case (Cons p rest)
  have N64: "N < 2 ^ 64" "L < 2 ^ 64" using assms(2,3) by auto
  have uN: "to_u64 (int N) = N" and uL: "to_u64 (int L) = L"
    using N64 by (simp_all add: to_u64_int)
  have p: "2 \<le> p" "p \<le> N" using Cons.prems(4) by auto
  have up: "to_u64 (int p) = p" using p N64 by (simp add: to_u64_int)
  have "p * N < 2 ^ 64" using p(2) assms(2,3) by (intro mult_below_u64) auto
  then have prod: "(p * N) mod 2 ^ 64 = p * N" by simp
  have get: "vector_get mpf N = Inr (int c)"
    using Cons.prems(1,2) assms(2) by (simp add: vector_get_def)
  have ge: "\<And>q. q \<in> set (p # rest) \<Longrightarrow> p \<le> q" using Cons.prems(3) by auto
  have Npos: "0 < N" using assms(1) by simp
  show ?case
  proof (cases "c < p")
    case True
    have "\<forall>m\<le>L. \<not> (N dvd m \<and> m div N \<in> set (p # rest) \<and> m div N \<le> c)"
      using ge True by fastforce
    then have "\<forall>m\<le>L. mpf ! m =
        (if N dvd m \<and> m div N \<in> set (p # rest) \<and> m div N \<le> c then int (m div N) else mpf ! m)"
      by (metis (full_types))
    moreover have "euler_inner (int L) (int N) (map int (p # rest)) mpf = Inr mpf"
      using True get uN by simp
    ultimately show ?thesis using Cons.prems(1) by blast
  next
    case False
    show ?thesis
    proof (cases "L < p * N")
      case True
      have "\<forall>m\<le>L. \<not> (N dvd m \<and> m div N \<in> set (p # rest) \<and> m div N \<le> c)"
      proof (intro allI impI notI)
        fix m assume m: "m \<le> L" and h: "N dvd m \<and> m div N \<in> set (p # rest) \<and> m div N \<le> c"
        then have "p \<le> m div N" using ge by blast
        then have "p * N \<le> (m div N) * N" by simp
        also have "\<dots> = m" using h by simp
        finally show False using m True by simp
      qed
      then have "\<forall>m\<le>L. mpf ! m =
        (if N dvd m \<and> m div N \<in> set (p # rest) \<and> m div N \<le> c then int (m div N) else mpf ! m)"
        by (metis (full_types))
      moreover have "euler_inner (int L) (int N) (map int (p # rest)) mpf = Inr mpf"
        using False True get uN up uL prod by simp
      ultimately show ?thesis using Cons.prems(1) by blast
    next
      case inb: False
      let ?mpf1 = "mpf[p * N := int p]"
      have set1: "vector_set mpf (p * N) (int p) = Inr ?mpf1"
        using inb Cons.prems(1) by (simp add: vector_set_def)
      have ne: "p * N \<noteq> N" using p(1) Npos by simp
      have l1: "length ?mpf1 = L + 1" using Cons.prems(1) by simp
      have n1: "?mpf1 ! N = int c" using ne Cons.prems(2) by simp
      have s1: "sorted rest" using Cons.prems(3) by simp
      have r1: "\<forall>p\<in>set rest. 2 \<le> p \<and> p \<le> N" using Cons.prems(4) by simp
      from Cons.IH [OF l1 n1 s1 r1]
      obtain mpf' where mpf': "euler_inner (int L) (int N) (map int rest) ?mpf1 = Inr mpf'"
        "length mpf' = L + 1"
        "\<forall>m\<le>L. mpf' ! m =
          (if N dvd m \<and> m div N \<in> set rest \<and> m div N \<le> c then int (m div N) else ?mpf1 ! m)"
        by blast
      have step: "euler_inner (int L) (int N) (map int (p # rest)) mpf = Inr mpf'"
        using False inb get uN up uL prod set1 mpf'(1) by simp
      have "\<forall>m\<le>L. mpf' ! m =
        (if N dvd m \<and> m div N \<in> set (p # rest) \<and> m div N \<le> c then int (m div N) else mpf ! m)"
      proof (intro allI impI)
        fix m assume m: "m \<le> L"
        have eqp: "m = p * N \<longleftrightarrow> N dvd m \<and> m div N = p"
          using Npos by auto
        have "?mpf1 ! m = (if m = p * N then int p else mpf ! m)"
          using m Cons.prems(1) by (simp add: nth_list_update)
        then show "mpf' ! m =
          (if N dvd m \<and> m div N \<in> set (p # rest) \<and> m div N \<le> c then int (m div N) else mpf ! m)"
          using mpf'(3) m eqp False by auto
      qed
      with step mpf'(2) show ?thesis by blast
    qed
  qed
qed

subsection \<open>One number\<close>

lemma euler_table_length: "length (euler_table L N) = L + 1"
  by (simp add: euler_table_def)

lemma euler_table_nth:
  "m \<le> L \<Longrightarrow> euler_table L N ! m = (if 2 \<le> m \<and> marked N m then int (lpf m) else 0)"
  unfolding euler_table_def by (simp del: upt_Suc add: nth_map_upt less_Suc_eq_le)

lemma marked_self:
  assumes "2 \<le> N"
  shows "marked N N \<longleftrightarrow> \<not> prime_number N"
proof -
  have "N div lpf N < N" using assms lpf_props(1) [OF assms] by simp
  then have "marked N N \<longleftrightarrow> 2 \<le> N div lpf N" by (simp add: marked_def)
  also have "\<dots> \<longleftrightarrow> \<not> prime_number N"
    using cofactor_composite [OF assms] cofactor_prime [of N] by auto
  finally show ?thesis .
qed

lemma primes_below_Suc:
  assumes "2 \<le> N"
  shows "primes_below (N + 1) = (if prime_number N then primes_below N @ [int N] else primes_below N)"
  using assms by (simp add: primes_below_def)

lemma primes_below_length: "length (primes_below N) \<le> N"
proof -
  have "length (filter prime_number [2..<N]) \<le> length [2..<N]" by (rule length_filter_le)
  then show ?thesis by (simp add: primes_below_def)
qed

lemma marked_Suc:
  assumes "2 \<le> N"
  shows "marked (N + 1) m \<longleftrightarrow> marked N m \<or> m = N \<or> m div lpf m = N"
  using assms unfolding marked_def by auto

lemma euler_step_correct:
  assumes "2 \<le> N" and "N \<le> L" and "L < 2 ^ 32"
  shows "euler_step (int L) (int N) (euler_table L N, primes_below N)
           = Inr (euler_table L (N + 1), primes_below (N + 1))"
proof -
  let ?mpf = "euler_table L N"
  define ps where "ps = filter prime_number [2..<N + 1]"
  have mem: "\<And>q. q \<in> set ps \<longleftrightarrow> prime_number q \<and> 2 \<le> q \<and> q \<le> N"
    by (auto simp: ps_def)
  define mpf1 where "mpf1 = (if prime_number N then ?mpf[N := int N] else ?mpf)"
  have N64: "N < 2 ^ 64" using assms(2,3) by simp
  have uN: "to_u64 (int N) = N" using N64 by (rule to_u64_int)
  have lN: "lpf N \<noteq> 0" using lpf_props(1) [OF assms(1)] by simp
  have getN: "vector_get ?mpf N = Inr (if prime_number N then 0 else int (lpf N))"
    using assms(1,2) marked_self [OF assms(1)]
    by (simp add: vector_get_def euler_table_length euler_table_nth)
  have push: "push_back (primes_below N) (int N) = Inr (primes_below N @ [int N])"
  proof -
    have "length (primes_below N) < vector_max_size"
      using primes_below_length [of N] assms(2,3) by (simp add: vector_max_size_def)
    then show ?thesis by (simp add: push_back_def)
  qed
  have setN: "vector_set ?mpf N (int N) = Inr (?mpf[N := int N])"
    using assms(2) by (simp add: vector_set_def euler_table_length)
  have first: "(if (if prime_number N then 0 else int (lpf N)) = 0 then
               (case push_back (primes_below N) (int N) of
                  Inl e \<Rightarrow> Inl e
                | Inr primes' \<Rightarrow>
                    (case vector_set ?mpf N (int N) of
                       Inl e \<Rightarrow> Inl e
                     | Inr mpf' \<Rightarrow> Inr (mpf', primes')))
             else Inr (?mpf, primes_below N)) = Inr (mpf1, primes_below (N + 1))"
    using lN primes_below_Suc [OF assms(1)] by (simp add: push setN mpf1_def)
  have len1: "length mpf1 = L + 1" by (simp add: mpf1_def euler_table_length)
  have nth1: "mpf1 ! N = int (lpf N)"
    using assms(2) by (simp add: mpf1_def euler_table_length prime_number_lpf
        euler_table_nth marked_self [OF assms(1)] assms(1))
  have sorted: "sorted ps" unfolding ps_def by (rule sorted_wrt_filter) (simp del: upt_Suc)
  have range: "\<forall>p\<in>set ps. 2 \<le> p \<and> p \<le> N" by (simp add: mem)
  from euler_inner_correct [OF assms len1 nth1 sorted range]
  obtain mpf2 where mpf2: "euler_inner (int L) (int N) (map int ps) mpf1 = Inr mpf2"
    "length mpf2 = L + 1"
    "\<forall>m\<le>L. mpf2 ! m =
        (if N dvd m \<and> m div N \<in> set ps \<and> m div N \<le> lpf N then int (m div N) else mpf1 ! m)"
    by blast
  have pb: "primes_below (N + 1) = map int ps" by (simp add: primes_below_def ps_def)
  have "mpf2 = euler_table L (N + 1)"
  proof (rule nth_equalityI)
    show "length mpf2 = length (euler_table L (N + 1))"
      using mpf2(2) by (simp add: euler_table_length)
  next
    fix m assume "m < length mpf2"
    then have m: "m \<le> L" using mpf2(2) by simp
    have Npos: "0 < N" using assms(1) by simp
    show "mpf2 ! m = euler_table L (N + 1) ! m"
    proof (cases "N dvd m \<and> m div N \<in> set ps \<and> m div N \<le> lpf N")
      case True
      define p where "p = m div N"
      have mp: "m = p * N" using True by (simp add: p_def)
      have pp: "prime_number p" "p \<le> lpf N" using True by (simp_all add: p_def mem)
      have lm: "lpf m = p" using lpf_prime_mult [OF pp(1) assms(1) pp(2)] mp by simp
      have p2: "2 \<le> p" using pp(1) by (simp add: prime_number_def)
      have "m div lpf m = N" using lm mp p2 by simp
      then have "marked (N + 1) m" using marked_Suc [OF assms(1)] by simp
      moreover have "2 \<le> m" using mp p2 assms(1) mult_le_mono [of 2 p 2 N] by simp
      ultimately have "euler_table L (N + 1) ! m = int p"
        using m lm by (simp add: euler_table_nth)
      moreover have "mpf2 ! m = int p"
      proof -
        have "mpf2 ! m =
          (if N dvd m \<and> m div N \<in> set ps \<and> m div N \<le> lpf N then int (m div N) else mpf1 ! m)"
          using mpf2(3) m by blast
        then show ?thesis using True by (simp only: simp_thms if_True p_def)
      qed
      ultimately show ?thesis by simp
    next
      case False
      have "mpf2 ! m =
        (if N dvd m \<and> m div N \<in> set ps \<and> m div N \<le> lpf N then int (m div N) else mpf1 ! m)"
        using mpf2(3) m by blast
      then have a: "mpf2 ! m = mpf1 ! m" using False by (simp only: if_False)
      show ?thesis
      proof (cases "m = N")
        case True
        have "marked (N + 1) N" by (simp add: marked_def)
        then show ?thesis using a True nth1 m assms(1) by (simp add: euler_table_nth)
      next
        case mN: False
        have b: "mpf1 ! m = euler_table L N ! m" using mN by (simp add: mpf1_def)
        have "marked (N + 1) m \<longleftrightarrow> marked N m" if m2: "2 \<le> m"
        proof -
          have "m div lpf m \<noteq> N"
          proof
            assume c: "m div lpf m = N"
            define q where "q = lpf m"
            have d: "q dvd m" unfolding q_def using m2 by (rule lpf_props)
            then have mN': "m = q * N" using c unfolding q_def by (metis dvd_mult_div_cancel)
            have "N dvd m" unfolding mN' by simp
            moreover have "m div N = q" unfolding mN' using Npos by simp
            moreover have "prime_number q" unfolding q_def using m2 by (rule lpf_prime)
            moreover have "q \<le> lpf N"
              unfolding q_def using lpf_cofactor [OF m2] c assms(1) by simp
            moreover have "lpf N \<le> N" using assms(1) by (rule lpf_le)
            moreover have "2 \<le> q" unfolding q_def using m2 by (rule lpf_props)
            ultimately show False using False by (simp add: mem)
          qed
          then show ?thesis using marked_Suc [OF assms(1)] mN by simp
        qed
        then show ?thesis using a b m by (auto simp: euler_table_nth)
      qed
    qed
  qed
  then have inner: "euler_inner (int L) (int N) (primes_below (N + 1)) mpf1
      = Inr (euler_table L (N + 1))"
    using mpf2(1) pb by simp
  show ?thesis
    unfolding euler_step_def
    by (simp only: prod.case getN uN sum.case first inner)
qed

subsection \<open>The loop over the numbers\<close>

lemma bit_width_le_iff: "bit_width n \<le> k \<longleftrightarrow> n < 2 ^ k"
proof (induction n arbitrary: k rule: bit_width.induct)
  case (1 n)
  show ?case
  proof (cases "n = 0")
    case True
    then show ?thesis by (simp add: bit_width.simps)
  next
    case False
    show ?thesis
    proof (cases k)
      case 0
      then show ?thesis using False by (simp add: bit_width.simps [of n])
    next
      case (Suc k')
      have "bit_width n \<le> k \<longleftrightarrow> bit_width (n div 2) \<le> k'"
        using False Suc by (simp add: bit_width.simps [of n])
      also have "\<dots> \<longleftrightarrow> n div 2 < 2 ^ k'" using 1 [OF False] .
      also have "\<dots> \<longleftrightarrow> n < 2 ^ k" using Suc by auto
      finally show ?thesis .
    qed
  qed
qed

lemma type_max_ge: "127 \<le> type_max T"
  by (cases T) (simp_all add: type_max_def digits_def)

lemma type_max_less: "type_max T < 2 ^ type_bits T"
  by (cases T) (simp_all add: type_max_def digits_def)

lemma euler_outer_correct:
  assumes "2 \<le> N" and "N \<le> L + 1" and "L < 2 ^ 32" and "int L < type_max T"
  shows "euler_outer T (int L) (int N) (euler_table L N, primes_below N)
           = Some (Inr (euler_table L (L + 1), primes_below (L + 1)))"
  using assms(1,2)
proof (induction "L + 1 - N" arbitrary: N rule: less_induct)
  case less
  show ?case
  proof (cases "N \<le> L")
    case False
    then have "N = L + 1" using less.prems(2) by simp
    then show ?thesis by (subst euler_outer.simps) simp
  next
    case True
    have step: "euler_step (int L) (int N) (euler_table L N, primes_below N)
           = Inr (euler_table L (N + 1), primes_below (N + 1))"
      using less.prems(1) True assms(3) by (rule euler_step_correct)
    have inc: "increment T (int N) = Inr (int (N + 1))"
      using True assms(4) by (simp add: increment_def)
    have "euler_outer T (int L) (int (N + 1)) (euler_table L (N + 1), primes_below (N + 1))
           = Some (Inr (euler_table L (L + 1), primes_below (L + 1)))"
      using True less.prems(1) by (intro less.hyps) auto
    then show ?thesis
      using True by (subst euler_outer.simps) (simp add: step inc)
  qed
qed

lemma increment_in_range:
  assumes "increment T num = Inr num'" and "num \<le> type_max T"
  shows "num' \<le> type_max T"
proof -
  have "type_min T \<le> type_max T" by (cases T) (simp_all add: type_min_def type_max_def digits_def)
  then show ?thesis using assms by (auto simp: increment_def split: if_splits)
qed

lemma euler_outer_no_exit_aux:
  assumes "euler_outer T lim num st = Some r"
  shows "type_max T \<le> lim \<longrightarrow> num \<le> type_max T \<longrightarrow> (\<exists>e. r = Inl e)"
proof (rule euler_outer.raw_induct
    [where P = "\<lambda>T lim num st r. type_max T \<le> lim \<longrightarrow> num \<le> type_max T \<longrightarrow> (\<exists>e. r = Inl e)",
      OF _ assms])
  fix f :: "int_type \<Rightarrow> int \<Rightarrow> int \<Rightarrow> int list \<times> int list \<Rightarrow> (error + int list \<times> int list) option"
  fix T lim num st r
  assume IH: "\<And>T lim num st r. f T lim num st = Some r \<Longrightarrow>
      type_max T \<le> lim \<longrightarrow> num \<le> type_max T \<longrightarrow> (\<exists>e. r = Inl e)"
  assume eq: "(if num \<le> lim then
        (case euler_step lim num st of
           Inl e \<Rightarrow> Some (Inl e)
         | Inr st' \<Rightarrow>
             (case increment T num of
                Inl e \<Rightarrow> Some (Inl e)
              | Inr num' \<Rightarrow> f T lim num' st'))
      else Some (Inr st)) = Some r"
  show "type_max T \<le> lim \<longrightarrow> num \<le> type_max T \<longrightarrow> (\<exists>e. r = Inl e)"
  proof (intro impI)
    assume lim: "type_max T \<le> lim" and num: "num \<le> type_max T"
    then have le: "num \<le> lim" by simp
    show "\<exists>e. r = Inl e"
    proof (cases "euler_step lim num st")
      case (Inl e)
      then have "Some (Inl e) = Some r" using eq le by simp
      then show ?thesis by blast
    next
      case (Inr st')
      show ?thesis
      proof (cases "increment T num")
        case (Inl e)
        then have "Some (Inl e) = Some r" using eq le Inr by simp
        then show ?thesis by blast
      next
        case inc: (Inr num')
        then have "num' \<le> type_max T" using num by (rule increment_in_range)
        moreover have "f T lim num' st' = Some r" using eq le Inr inc by simp
        ultimately show ?thesis using IH lim by blast
      qed
    qed
  qed
qed

lemma euler_outer_no_exit:
  assumes "euler_outer T lim num st = Some (Inr st')" and "num \<le> type_max T"
  shows "lim < type_max T"
  using euler_outer_no_exit_aux [OF assms(1)] assms(2) by auto

subsection \<open>The constructor\<close>







lemma euler_table_initial: "replicate (L + 1) 0 = euler_table L 2"
proof (rule nth_equalityI)
  show "length (replicate (L + 1) (0::int)) = length (euler_table L 2)"
    by (simp add: euler_table_length)
next
  fix m assume "m < length (replicate (L + 1) (0::int))"
  then have m: "m \<le> L" by simp
  have "\<not> (2 \<le> m \<and> marked 2 m)" by (auto simp: marked_def)
  then have "euler_table L 2 ! m = 0" using m by (simp only: euler_table_nth if_False)
  moreover have "replicate (L + 1) (0::int) ! m = 0"
    using m by (intro nth_replicate) simp
  ultimately show "replicate (L + 1) (0::int) ! m = euler_table L 2 ! m" by simp
qed

lemma make_unsigned_id:
  assumes "0 \<le> L" and "L \<le> type_max T"
  shows "make_unsigned T L = nat L"
proof -
  have "L < 2 ^ type_bits T" using assms(2) type_max_less [of T] by simp
  then have "L mod 2 ^ type_bits T = L" using assms(1) by simp
  then show ?thesis by (simp add: make_unsigned_def)
qed

lemma nat_less_2p32: "0 \<le> L \<Longrightarrow> nat L < 2 ^ 32 \<longleftrightarrow> L < 2 ^ 32"
  by (simp add: nat_less_iff)

lemma EulerSieve_constructs:
  assumes "0 \<le> L" and "L < 2 ^ 32" and "L < type_max T"
  shows "EulerSieve T L = Some (Inr \<lparr>e_num_limit = L,
     e_min_prime_factor = euler_table (nat L) (nat L + 1), e_primes = primes_below (nat L + 1)\<rparr>)"
proof -
  let ?n = "nat L"
  have nL: "?n < 2 ^ 32" using assms(1,2) by (simp add: nat_less_2p32)
  have n: "numeric_cast_u64 L = Inr ?n" using assms(1,2) by (simp add: numeric_cast_u64_def)
  have m: "(?n + 1) mod 2 ^ 64 = ?n + 1" using nL by simp
  have cr: "vector_create (?n + 1) (0::int) = Inr (euler_table ?n 2)"
    using nL euler_table_initial [of ?n] by (simp add: vector_create_def vector_max_size_def)
  have "bit_width (make_unsigned T L) \<le> 32"
    using make_unsigned_id [of L T] assms nL by (simp add: bit_width_le_iff)
  then have chk: "check_overflow T L = Inr ()" by (simp add: check_overflow_def)
  have pb: "primes_below 2 = []" by (simp add: primes_below_def)
  have iL: "int ?n = L" using assms(1) by simp
  have outer: "euler_outer T L 2 (euler_table ?n 2, []) =
      Some (Inr (euler_table ?n (?n + 1), primes_below (?n + 1)))"
  proof (cases "1 \<le> ?n")
    case True
    then show ?thesis
      using euler_outer_correct [of 2 ?n T] nL assms(3) iL pb by simp
  next
    case False
    then have z: "?n = 0" "L = 0" using assms(1) by auto
    have "euler_table 0 2 = euler_table 0 1"
      by (simp add: euler_table_def)
    moreover have "primes_below 1 = []" by (simp add: primes_below_def)
    ultimately show ?thesis using z by (subst euler_outer.simps) simp
  qed
  show ?thesis
    unfolding EulerSieve_def
    by (simp only: n m cr chk outer sum.case option.case prod.case)
qed

lemma EulerSieve_success_range:
  assumes "EulerSieve T L = Some (Inr s)"
  shows "0 \<le> L \<and> L < 2 ^ 32 \<and> L < type_max T"
proof -
  have c: "0 \<le> L \<and> L < 2 ^ 64"
    using assms by (auto simp: EulerSieve_def numeric_cast_u64_def split: if_splits)
  then have n: "numeric_cast_u64 L = Inr (nat L)" by (simp add: numeric_cast_u64_def)
  obtain mpf0 where cr: "vector_create ((nat L + 1) mod 2 ^ 64) (0::int) = Inr mpf0"
    using assms n by (auto simp: EulerSieve_def split: sum.splits)
  have chk: "check_overflow T L = Inr ()"
    using assms n cr by (auto simp: EulerSieve_def split: sum.splits)
  then have bw: "bit_width (make_unsigned T L) \<le> 32"
    by (auto simp: check_overflow_def Let_def split: if_splits)
  obtain st where "euler_outer T L 2 (mpf0, []) = Some (Inr st)"
    using assms n cr chk by (auto simp: EulerSieve_def split: sum.splits option.splits)
  moreover have "2 \<le> type_max T" using type_max_ge [of T] by simp
  ultimately have lt: "L < type_max T" by (rule euler_outer_no_exit)
  then have "make_unsigned T L = nat L" using c by (intro make_unsigned_id) auto
  then have "nat L < 2 ^ 32" using bw by (simp add: bit_width_le_iff)
  then show ?thesis using c lt by (simp add: nat_less_2p32)
qed

lemma EulerSieve_correct:
  assumes "EulerSieve T L = Some (Inr s)"
  shows "0 \<le> L" and "L < 2 ^ 32" and "L < type_max T"
    and "s = \<lparr>e_num_limit = L,
     e_min_prime_factor = euler_table (nat L) (nat L + 1), e_primes = primes_below (nat L + 1)\<rparr>"
proof -
  have r: "0 \<le> L \<and> L < 2 ^ 32 \<and> L < type_max T" using assms by (rule EulerSieve_success_range)
  then show "0 \<le> L" and "L < 2 ^ 32" and "L < type_max T" by simp_all
  from r have "EulerSieve T L = Some (Inr \<lparr>e_num_limit = L,
     e_min_prime_factor = euler_table (nat L) (nat L + 1), e_primes = primes_below (nat L + 1)\<rparr>)"
    by (intro EulerSieve_constructs) auto
  with assms show "s = \<lparr>e_num_limit = L,
     e_min_prime_factor = euler_table (nat L) (nat L + 1), e_primes = primes_below (nat L + 1)\<rparr>"
    by simp
qed

subsection \<open>The queries\<close>

lemma euler_table_final:
  assumes "2 \<le> m" and "m \<le> L"
  shows "euler_table L (L + 1) ! m = int (lpf m)"
  using assms by (simp add: euler_table_nth marked_def)

lemma EulerSieve_min_prime_factor_value:
  assumes "EulerSieve T L = Some (Inr s)"
  shows "EulerSieve_min_prime_factor T s n =
     (if \<bar>n\<bar> \<le> 1 then Inl DomainError
      else if L < \<bar>n\<bar> then Inl OutOfRange
      else Inr (int (lpf (nat \<bar>n\<bar>))))"
    and "2 \<le> \<bar>n\<bar> \<Longrightarrow> \<bar>n\<bar> \<le> L \<Longrightarrow> e_min_prime_factor s ! nat \<bar>n\<bar> = int (lpf (nat \<bar>n\<bar>))"
proof -
  note c = EulerSieve_correct [OF assms]
  have mu: "make_unsigned T (e_num_limit s) = nat L"
    using c by (simp add: make_unsigned_id)
  have nth: "e_min_prime_factor s ! nat \<bar>n\<bar> = int (lpf (nat \<bar>n\<bar>))" if "2 \<le> \<bar>n\<bar>" "\<bar>n\<bar> \<le> L"
  proof -
    have "2 \<le> nat \<bar>n\<bar>" "nat \<bar>n\<bar> \<le> nat L" using that by auto
    then show ?thesis using c(4) euler_table_final [of "nat \<bar>n\<bar>" "nat L"] by simp
  qed
  then show "2 \<le> \<bar>n\<bar> \<Longrightarrow> \<bar>n\<bar> \<le> L \<Longrightarrow> e_min_prime_factor s ! nat \<bar>n\<bar> = int (lpf (nat \<bar>n\<bar>))" .
  have len: "length (e_min_prime_factor s) = nat L + 1" using c(4) by (simp add: euler_table_length)
  show "EulerSieve_min_prime_factor T s n =
     (if \<bar>n\<bar> \<le> 1 then Inl DomainError
      else if L < \<bar>n\<bar> then Inl OutOfRange
      else Inr (int (lpf (nat \<bar>n\<bar>))))"
  proof (cases "\<bar>n\<bar> \<le> 1")
    case True
    then have "nat \<bar>n\<bar> \<le> 1" by simp
    then show ?thesis using True by (simp add: EulerSieve_min_prime_factor_def unsigned_abs_def)
  next
    case False
    then have a: "\<not> nat \<bar>n\<bar> \<le> 1" by simp
    show ?thesis
    proof (cases "L < \<bar>n\<bar>")
      case True
      then have "nat L < nat \<bar>n\<bar>" using c(1) by simp
      then show ?thesis using False True a
        by (simp add: EulerSieve_min_prime_factor_def unsigned_abs_def mu)
    next
      case le: False
      then have b: "\<not> nat L < nat \<bar>n\<bar>" by linarith
      then have "nat \<bar>n\<bar> < length (e_min_prime_factor s)" using len by linarith
      then have "vector_get (e_min_prime_factor s) (nat \<bar>n\<bar>) = Inr (int (lpf (nat \<bar>n\<bar>)))"
        using nth False le by (simp add: vector_get_def)
      then show ?thesis using False le a b
        by (simp add: EulerSieve_min_prime_factor_def unsigned_abs_def mu)
    qed
  qed
qed

lemma lpf_least_prime:
  assumes "2 \<le> m"
  shows "prime_number (lpf m) \<and> lpf m dvd m \<and> (\<forall>q. prime_number q \<and> q dvd m \<longrightarrow> lpf m \<le> q)"
  using lpf_prime [OF assms] lpf_props(2,3) [OF assms] by (auto simp: prime_number_def)

lemma primes_below_sorted: "sorted_wrt (<) (primes_below N)"
proof -
  have "sorted_wrt (<) (filter prime_number [2..<N])"
    by (rule sorted_wrt_filter) (rule sorted_wrt_upt)
  then show ?thesis by (simp add: primes_below_def sorted_wrt_map)
qed

lemma primes_below_set: "set (primes_below (nat L + 1)) = {n. 0 \<le> n \<and> n \<le> L \<and> prime_number (nat n)}"
proof (intro set_eqI iffI)
  fix n assume "n \<in> set (primes_below (nat L + 1))"
  then obtain p where p: "n = int p" "prime_number p" "p \<le> nat L"
    by (auto simp: primes_below_def)
  then have "2 \<le> p" by (simp add: prime_number_def)
  with p have "int p \<le> L" by linarith
  with p show "n \<in> {n. 0 \<le> n \<and> n \<le> L \<and> prime_number (nat n)}" by simp
next
  fix n assume "n \<in> {n. 0 \<le> n \<and> n \<le> L \<and> prime_number (nat n)}"
  then have n: "0 \<le> n" "n \<le> L" "prime_number (nat n)" by simp_all
  then have "2 \<le> nat n" by (simp add: prime_number_def)
  then have "nat n \<in> set (filter prime_number [2..<nat L + 1])" using n by auto
  then have "int (nat n) \<in> set (primes_below (nat L + 1))"
    unfolding primes_below_def by (metis image_eqI set_map)
  then show "n \<in> set (primes_below (nat L + 1))" using n(1) by simp
qed

subsection \<open>The sieve of Euler up to 10\<close>

lemma euler_outer_10:
  "euler_outer Int32 10 2 ([0, 0, 0, 0, 0, 0, 0, 0, 0, 0, 0], [])
     = Some (Inr ([0, 0, 2, 3, 2, 5, 2, 7, 2, 3, 2], [2, 3, 5, 7]))"
  by (subst euler_outer.simps,
      simp add: euler_step_def push_back_def vector_get_def vector_set_def to_u64_def
        increment_def type_max_def digits_def vector_max_size_def)+

lemma EulerSieve_10: "EulerSieve Int32 10 = Some (Inr euler_sieve_10)"
proof -
  have "replicate 11 (0::int) = [0, 0, 0, 0, 0, 0, 0, 0, 0, 0, 0]"
    by (simp add: numeral_eq_Suc)
  moreover have "bit_width 10 \<le> 32" by (simp add: bit_width_le_iff)
  ultimately show ?thesis
    by (simp add: EulerSieve_def numeric_cast_u64_def vector_create_def vector_max_size_def
        check_overflow_def make_unsigned_def euler_outer_10 euler_sieve_10_def)
qed

subsection \<open>The claims about the sieve of Euler\<close>

text \<open>
  Claim C1. For every limit \<open>L\<close> for which \<open>EulerSieve(L)\<close> constructs and every \<open>n\<close> with
  \<open>2 \<le> n \<le> L\<close>, the stored entry for \<open>n\<close>, which is what \<open>min_prime_factor(n)\<close> returns, is the
  least prime dividing \<open>n\<close>: it is prime, it divides \<open>n\<close>, and no smaller prime divides \<open>n\<close>.
\<close>

theorem EulerSieve_min_prime_factor_least_prime:
  assumes "EulerSieve T L = Some (Inr s)" and "2 \<le> n" and "n \<le> L"
  shows "\<exists>p. e_min_prime_factor s ! nat n = int p
           \<and> EulerSieve_min_prime_factor T s n = Inr (int p)
           \<and> prime_number p \<and> p dvd nat n
           \<and> (\<forall>q. prime_number q \<and> q dvd nat n \<longrightarrow> p \<le> q)"
proof -
  have a: "\<bar>n\<bar> = n" "2 \<le> \<bar>n\<bar>" "\<bar>n\<bar> \<le> L" using assms(2,3) by auto
  have "e_min_prime_factor s ! nat n = int (lpf (nat n))"
    using EulerSieve_min_prime_factor_value(2) [OF assms(1) a(2,3)] a(1) by simp
  moreover have "EulerSieve_min_prime_factor T s n = Inr (int (lpf (nat n)))"
    using EulerSieve_min_prime_factor_value(1) [OF assms(1), of n] a assms(2,3) by simp
  moreover have "2 \<le> nat n" using assms(2) by simp
  ultimately show ?thesis using lpf_least_prime [of "nat n"] by blast
qed

theorem EulerSieve_min_prime_factor_least_prime_witness:
  "EulerSieve Int32 10 = Some (Inr euler_sieve_10)
   \<and> EulerSieve_min_prime_factor Int32 euler_sieve_10 9 = Inr 3
   \<and> prime_number 3 \<and> (3::nat) dvd 9
   \<and> (\<forall>q. \<not> (prime_number q \<and> q dvd 9 \<and> q < 3))"
proof -
  from EulerSieve_min_prime_factor_least_prime [OF EulerSieve_10, of 9]
  obtain p where p: "e_min_prime_factor euler_sieve_10 ! nat 9 = int p"
    "EulerSieve_min_prime_factor Int32 euler_sieve_10 9 = Inr (int p)"
    "prime_number p" "p dvd nat 9" "\<forall>q. prime_number q \<and> q dvd nat 9 \<longrightarrow> p \<le> q"
    by auto
  have "e_min_prime_factor euler_sieve_10 ! nat 9 = 3" by (simp add: euler_sieve_10_def)
  with p(1) have "p = 3" by simp
  with p EulerSieve_10 show ?thesis by auto
qed

text \<open>
  Claim C5. On a constructed \<open>EulerSieve(L)\<close>, \<open>min_prime_factor(n)\<close> takes the absolute value
  of \<open>n\<close> first (of any integer, the most negative one included); it raises \<open>DomainError\<close> if
  and only if \<open>|n| \<le> 1\<close>, raises \<open>OutOfRange\<close> if and only if \<open>|n| \<ge> 2\<close> and \<open>|n| > L\<close>, and
  otherwise returns the stored factor of \<open>|n|\<close>; so a negative \<open>n\<close> gives the result of
  \<open>|n|\<close>.
\<close>

theorem EulerSieve_min_prime_factor_errors:
  assumes "EulerSieve T L = Some (Inr s)"
  shows "EulerSieve_min_prime_factor T s n =
           (if \<bar>n\<bar> \<le> 1 then Inl DomainError
            else if L < \<bar>n\<bar> then Inl OutOfRange
            else Inr (e_min_prime_factor s ! nat \<bar>n\<bar>))
       \<and> (EulerSieve_min_prime_factor T s n = Inl DomainError \<longleftrightarrow> \<bar>n\<bar> \<le> 1)
       \<and> (EulerSieve_min_prime_factor T s n = Inl OutOfRange \<longleftrightarrow> 2 \<le> \<bar>n\<bar> \<and> L < \<bar>n\<bar>)
       \<and> EulerSieve_min_prime_factor T s (- n) = EulerSieve_min_prime_factor T s \<bar>n\<bar>
       \<and> EulerSieve_min_prime_factor T s n = EulerSieve_min_prime_factor T s \<bar>n\<bar>"
proof -
  note v = EulerSieve_min_prime_factor_value [OF assms]
  have 1: "EulerSieve_min_prime_factor T s n =
           (if \<bar>n\<bar> \<le> 1 then Inl DomainError
            else if L < \<bar>n\<bar> then Inl OutOfRange
            else Inr (e_min_prime_factor s ! nat \<bar>n\<bar>))"
    using v(1) [of n] v(2) [of n] by auto
  have 2: "EulerSieve_min_prime_factor T s (- n) = EulerSieve_min_prime_factor T s \<bar>n\<bar>"
    and 3: "EulerSieve_min_prime_factor T s n = EulerSieve_min_prime_factor T s \<bar>n\<bar>"
    by (simp_all add: EulerSieve_min_prime_factor_def unsigned_abs_def)
  show ?thesis using 1 2 3 by auto
qed

theorem EulerSieve_min_prime_factor_errors_witness:
  "EulerSieve Int32 10 = Some (Inr euler_sieve_10)
   \<and> EulerSieve_min_prime_factor Int32 euler_sieve_10 (- 9) = Inr 3
   \<and> EulerSieve_min_prime_factor Int32 euler_sieve_10 (- 1) = Inl DomainError
   \<and> EulerSieve_min_prime_factor Int32 euler_sieve_10 11 = Inl OutOfRange
   \<and> EulerSieve_min_prime_factor Int32 euler_sieve_10 (- 2147483648) = Inl OutOfRange"
proof -
  have v: "EulerSieve_min_prime_factor Int32 euler_sieve_10 n =
           (if \<bar>n\<bar> \<le> 1 then Inl DomainError
            else if 10 < \<bar>n\<bar> then Inl OutOfRange
            else Inr (e_min_prime_factor euler_sieve_10 ! nat \<bar>n\<bar>))" for n
    using EulerSieve_min_prime_factor_errors [OF EulerSieve_10, of n] by blast
  have "EulerSieve_min_prime_factor Int32 euler_sieve_10 (- 9) = Inr 3"
    by (subst v) (simp add: euler_sieve_10_def)
  moreover have "EulerSieve_min_prime_factor Int32 euler_sieve_10 (- 1) = Inl DomainError"
    by (subst v) simp
  moreover have "EulerSieve_min_prime_factor Int32 euler_sieve_10 11 = Inl OutOfRange"
    by (subst v) simp
  moreover have "EulerSieve_min_prime_factor Int32 euler_sieve_10 (- 2147483648) = Inl OutOfRange"
    by (subst v) simp
  ultimately show ?thesis using EulerSieve_10 by simp
qed

text \<open>
  Claim C6. For every constructed \<open>EulerSieve(L)\<close>, \<open>primes()\<close> is strictly ascending and its
  elements are exactly the \<open>n \<le> L\<close> with \<open>min_prime_factor(n) = n\<close>, that is, the primes up to
  \<open>L\<close>.
\<close>

theorem EulerSieve_primes_correct:
  assumes "EulerSieve T L = Some (Inr s)"
  shows "sorted_wrt (<) (EulerSieve_primes s)
       \<and> set (EulerSieve_primes s) = {n. n \<le> L \<and> EulerSieve_min_prime_factor T s n = Inr n}
       \<and> set (EulerSieve_primes s) = {n. 0 \<le> n \<and> n \<le> L \<and> prime_number (nat n)}"
proof -
  note c = EulerSieve_correct [OF assms]
  have p: "EulerSieve_primes s = primes_below (nat L + 1)"
    using c(4) by (simp add: EulerSieve_primes_def)
  have "(n \<le> L \<and> EulerSieve_min_prime_factor T s n = Inr n)
      \<longleftrightarrow> (0 \<le> n \<and> n \<le> L \<and> prime_number (nat n))" for n
  proof
    assume h: "n \<le> L \<and> EulerSieve_min_prime_factor T s n = Inr n"
    then have v: "\<not> \<bar>n\<bar> \<le> 1" "\<not> L < \<bar>n\<bar>" "int (lpf (nat \<bar>n\<bar>)) = n"
      using EulerSieve_min_prime_factor_value(1) [OF assms, of n]
      by (auto split: if_splits)
    then have "0 \<le> n" by linarith
    then have "lpf (nat n) = nat n" "2 \<le> nat n" using v by auto
    then show "0 \<le> n \<and> n \<le> L \<and> prime_number (nat n)"
      using h \<open>0 \<le> n\<close> by (simp add: prime_number_lpf)
  next
    assume h: "0 \<le> n \<and> n \<le> L \<and> prime_number (nat n)"
    then have "2 \<le> nat n" "lpf (nat n) = nat n" by (simp_all add: prime_number_lpf)
    then show "n \<le> L \<and> EulerSieve_min_prime_factor T s n = Inr n"
      using h EulerSieve_min_prime_factor_value(1) [OF assms, of n] by auto
  qed
  then have "{n. n \<le> L \<and> EulerSieve_min_prime_factor T s n = Inr n}
      = {n. 0 \<le> n \<and> n \<le> L \<and> prime_number (nat n)}" by blast
  then show ?thesis using p primes_below_sorted primes_below_set by simp
qed

theorem EulerSieve_primes_correct_witness:
  "EulerSieve Int32 10 = Some (Inr euler_sieve_10)
   \<and> EulerSieve_primes euler_sieve_10 = [2, 3, 5, 7]
   \<and> sorted_wrt (<) (EulerSieve_primes euler_sieve_10)
   \<and> {n. n \<le> 10 \<and> EulerSieve_min_prime_factor Int32 euler_sieve_10 n = Inr n} = {2, 3, 5, 7}
   \<and> {n. 0 \<le> n \<and> n \<le> 10 \<and> prime_number (nat n)} = {2, 3, 5, 7}"
proof -
  have "EulerSieve_primes euler_sieve_10 = [2, 3, 5, 7]"
    by (simp add: EulerSieve_primes_def euler_sieve_10_def)
  moreover note EulerSieve_primes_correct [OF EulerSieve_10] EulerSieve_10
  ultimately show ?thesis by (simp only: list.set) blast
qed

text \<open>
  Claim C9. For every limit \<open>L\<close> for which both sieves construct and every \<open>n\<close> with
  \<open>2 \<le> n \<le> L\<close>, \<open>Sieve(L).is_prime(n)\<close> is true exactly when
  \<open>EulerSieve(L).min_prime_factor(n)\<close> is \<open>n\<close>.
\<close>

theorem sieves_agree:
  assumes "Sieve L = Some (Inr s1)" and "EulerSieve T L = Some (Inr s2)"
    and "2 \<le> n" and "n \<le> L"
  shows "\<exists>b p. Sieve_is_prime s1 n = Inr b \<and> EulerSieve_min_prime_factor T s2 n = Inr p
           \<and> (b \<longleftrightarrow> p = n)"
proof -
  have a: "Sieve_is_prime s1 n = Inr (prime_number (nat n))"
    using Sieve_is_prime_value [OF assms(1), of n] assms(3,4) by simp
  have b: "EulerSieve_min_prime_factor T s2 n = Inr (int (lpf (nat n)))"
    using EulerSieve_min_prime_factor_value(1) [OF assms(2), of n] assms(3,4) by simp
  have "prime_number (nat n) \<longleftrightarrow> int (lpf (nat n)) = n"
    using assms(3) by (auto simp: prime_number_lpf)
  then show ?thesis using a b by blast
qed

theorem sieves_agree_witness:
  "Sieve 10 = Some (Inr \<lparr>s_num_limit = 10, s_is_prime =
     [False, False, True, True, False, True, False, True, False, False, False]\<rparr>)
   \<and> EulerSieve Int32 10 = Some (Inr euler_sieve_10)
   \<and> Sieve_is_prime \<lparr>s_num_limit = 10, s_is_prime =
     [False, False, True, True, False, True, False, True, False, False, False]\<rparr> 7 = Inr True
   \<and> EulerSieve_min_prime_factor Int32 euler_sieve_10 7 = Inr 7
   \<and> Sieve_is_prime \<lparr>s_num_limit = 10, s_is_prime =
     [False, False, True, True, False, True, False, True, False, False, False]\<rparr> 9 = Inr False
   \<and> EulerSieve_min_prime_factor Int32 euler_sieve_10 9 = Inr 3"
proof -
  have a7: "Sieve_is_prime \<lparr>s_num_limit = 10, s_is_prime =
     [False, False, True, True, False, True, False, True, False, False, False]\<rparr> 7 = Inr True"
    by (simp add: Sieve_is_prime_def vector_get_def to_u64_def)
  have b9: "EulerSieve_min_prime_factor Int32 euler_sieve_10 9 = Inr 3"
    by (simp add: EulerSieve_min_prime_factor_def unsigned_abs_def make_unsigned_def
        vector_get_def euler_sieve_10_def)
  from sieves_agree [OF Sieve_10 EulerSieve_10, of 7] a7
  have b7: "EulerSieve_min_prime_factor Int32 euler_sieve_10 7 = Inr 7" by auto
  from sieves_agree [OF Sieve_10 EulerSieve_10, of 9] b9
  have a9: "Sieve_is_prime \<lparr>s_num_limit = 10, s_is_prime =
     [False, False, True, True, False, True, False, True, False, False, False]\<rparr> 9 = Inr False"
    by auto
  show ?thesis using Sieve_10 EulerSieve_10 a7 b7 a9 b9 by (simp only: simp_thms)
qed

section \<open>Coprime pairs: correctness\<close>

subsection \<open>A limit that every pair passes\<close>





subsection \<open>The tree of coprime pairs\<close>














subsection \<open>The number of pairs\<close>






subsection \<open>The loop and the function\<close>





subsection \<open>The pairs up to 5\<close>




subsection \<open>The claims about coprime pairs\<close>








end
